theory Spec2Isabelle
  imports Main "HOL-Library.Word"
begin

section \<open>JavaScript strings\<close>

text \<open>
  The extraction code of \<^verbatim>\<open>src/app/api/papers/route.ts\<close> works on JavaScript strings,
  which are sequences of 16-bit UTF-16 code units; \<^verbatim>\<open>length\<close>, \<^verbatim>\<open>substring\<close>, \<^verbatim>\<open>split\<close>
  and regular expressions without the \<^verbatim>\<open>u\<close> flag all count and compare code units.
\<close>

type_synonym jschar = "16 word"
type_synonym jsstring = "jschar list"

text \<open>An ASCII literal of the source, as code units.\<close>

definition js :: "string \<Rightarrow> jsstring" where
  "js s = map (\<lambda>c. of_nat (of_char c)) s"

text \<open>
  The characters removed by \<^verbatim>\<open>String.prototype.trim\<close> and matched by \<^verbatim>\<open>\s\<close>: ECMAScript's
  WhiteSpace and LineTerminator productions (TAB, LF, VT, FF, CR, SP, NBSP, the space
  separators of Unicode, LS, PS and the byte order mark).
\<close>

definition is_space :: "jschar \<Rightarrow> bool" where
  "is_space c \<longleftrightarrow>
     c \<in> set [0x09, 0x0A, 0x0B, 0x0C, 0x0D, 0x20, 0xA0, 0x1680,
               0x2028, 0x2029, 0x202F, 0x205F, 0x3000, 0xFEFF]
     \<or> (0x2000 \<le> c \<and> c \<le> 0x200A)"

definition is_digit :: "jschar \<Rightarrow> bool" where
  "is_digit c \<longleftrightarrow> 0x30 \<le> c \<and> c \<le> 0x39"

definition is_upper :: "jschar \<Rightarrow> bool" where
  "is_upper c \<longleftrightarrow> 0x41 \<le> c \<and> c \<le> 0x5A"

definition is_lower :: "jschar \<Rightarrow> bool" where
  "is_lower c \<longleftrightarrow> 0x61 \<le> c \<and> c \<le> 0x7A"

text \<open>\<^verbatim>\<open>s.trim()\<close>\<close>

definition trim :: "jsstring \<Rightarrow> jsstring" where
  "trim s = rev (dropWhile is_space (rev (dropWhile is_space s)))"

text \<open>
  \<^verbatim>\<open>s.split('\n')\<close>: the pieces re_between line feeds. The result always has one piece more
  than there are line feeds, so the empty string gives one empty piece.
\<close>

fun split_nl :: "jsstring \<Rightarrow> jsstring list" where
  "split_nl [] = [[]]"
| "split_nl (c # cs) =
     (let r = split_nl cs in if c = 0x0A then [] # r else (c # hd r) # tl r)"

text \<open>\<^verbatim>\<open>a.slice(0, n)\<close> on arrays and \<^verbatim>\<open>s.substring(0, n)\<close> on strings\<close>

definition slice0 :: "nat \<Rightarrow> 'a list \<Rightarrow> 'a list" where
  "slice0 n xs = take n xs"

definition substring0 :: "nat \<Rightarrow> jsstring \<Rightarrow> jsstring" where
  "substring0 n s = take n s"

text \<open>\<^verbatim>\<open>s.includes(' ')\<close>\<close>

definition includes_space :: "jsstring \<Rightarrow> bool" where
  "includes_space s \<longleftrightarrow> 0x20 \<in> set s"

section \<open>Regular expressions\<close>

text \<open>
  The patterns of the source only quantify single-character atoms, so the syntax below
  has repetition on character classes only. \<open>Rep c lo hi greedy\<close> is \<^verbatim>\<open>c{lo,hi}\<close>
  (\<open>hi = None\<close> for no upper bound) or its lazy form.
\<close>

datatype cclass =
    Lit jschar
  | Range jschar jschar
  | Digit
  | Space
  | AnyChar
  | Union cclass cclass
  | Neg cclass

datatype regex =
    Atom cclass
  | Rep cclass nat "nat option" bool
  | Seq regex regex
  | Alt regex regex
  | Group nat regex
  | Look regex
  | Bol
  | Eol
  | Eps

record regexp =
  body :: regex
  ngroups :: nat
  ignoreCase :: bool

text \<open>
  Canonicalize of the ECMAScript specification, for a pattern without the \<^verbatim>\<open>u\<close> flag: with
  \<^verbatim>\<open>i\<close> a character is compared by its upper-case form, and a character outside ASCII
  is never mapped into ASCII. The case-insensitive patterns of the source contain only
  ASCII characters and the classes \<^verbatim>\<open>\s\<close>, \<^verbatim>\<open>\d\<close>, so only the ASCII mapping can decide a
  match. A character is in a class when some member of the class has the same
  canonical form.
\<close>

definition canonicalize :: "bool \<Rightarrow> jschar \<Rightarrow> jschar" where
  "canonicalize ic c = (if ic \<and> is_lower c then c - 0x20 else c)"

fun in_class :: "bool \<Rightarrow> cclass \<Rightarrow> jschar \<Rightarrow> bool" where
  "in_class ic (Lit a) c \<longleftrightarrow> canonicalize ic c = canonicalize ic a"
| "in_class ic (Range lo hi) c \<longleftrightarrow>
     (let u = canonicalize ic c
      in (lo \<le> u \<and> u \<le> hi) \<or> (ic \<and> is_upper u \<and> lo \<le> u + 0x20 \<and> u + 0x20 \<le> hi))"
| "in_class ic Digit c \<longleftrightarrow> is_digit c"
| "in_class ic Space c \<longleftrightarrow> is_space c"
| "in_class ic AnyChar c \<longleftrightarrow> True"
| "in_class ic (Union a b) c \<longleftrightarrow> in_class ic a c \<or> in_class ic b c"
| "in_class ic (Neg a) c \<longleftrightarrow> \<not> in_class ic a c"

text \<open>
  A matcher state is the position reached, the input still ahead, and the captures so
  far (index 0 is filled in when the whole match is known; a group that did not take
  part is \<open>None\<close>, JavaScript's \<^verbatim>\<open>undefined\<close>).
\<close>

record mstate =
  pos :: nat
  rest :: jsstring
  caps :: "jsstring option list"

definition advance :: "mstate \<Rightarrow> nat \<Rightarrow> mstate" where
  "advance s k = s\<lparr>pos := pos s + k, rest := drop k (rest s)\<rparr>"

text \<open>
  The backtracking matcher, as the list of all the states in which a pattern can end
  from a state, in the order in which backtracking tries them: the match that the
  engine reports is the head of the list.
\<close>

fun ms :: "bool \<Rightarrow> regex \<Rightarrow> mstate \<Rightarrow> mstate list" where
  "ms ic (Atom c) s =
     (case rest s of
        [] \<Rightarrow> []
      | x # xs \<Rightarrow> if in_class ic c x then [advance s 1] else [])"
| "ms ic (Rep c lo hi greedy) s =
     (let n = length (takeWhile (in_class ic c) (rest s));
          m = (case hi of None \<Rightarrow> n | Some h \<Rightarrow> min n h)
      in if m < lo then []
         else map (advance s) (if greedy then rev [lo ..< Suc m] else [lo ..< Suc m]))"
| "ms ic (Seq a b) s = concat (map (ms ic b) (ms ic a s))"
| "ms ic (Alt a b) s = ms ic a s @ ms ic b s"
| "ms ic (Group n r) s =
     map (\<lambda>s'. s'\<lparr>caps := (caps s')[n := Some (take (pos s' - pos s) (rest s))]\<rparr>)
         (ms ic r s)"
| "ms ic (Look r) s =
     (case ms ic r s of [] \<Rightarrow> [] | s' # _ \<Rightarrow> [s\<lparr>caps := caps s'\<rparr>])"
| "ms ic Bol s = (if pos s = 0 then [s] else [])"
| "ms ic Eol s = (if rest s = [] then [s] else [])"
| "ms ic Eps s = [s]"

text \<open>
  \<^verbatim>\<open>RegExp.prototype.exec\<close> for a pattern without the \<^verbatim>\<open>g\<close> and \<^verbatim>\<open>y\<close> flags: the match at the
  leftmost start position that has one. The result is the match array (element 0 the
  matched text, element \<open>n\<close> the capture of group \<open>n\<close>) and its \<^verbatim>\<open>index\<close>.
\<close>

record jsmatch =
  index :: nat
  groups :: "jsstring option list"

definition start_state :: "regexp \<Rightarrow> nat \<Rightarrow> jsstring \<Rightarrow> mstate" where
  "start_state re p xs = \<lparr>pos = p, rest = xs, caps = replicate (Suc (ngroups re)) None\<rparr>"

definition match_at :: "regexp \<Rightarrow> nat \<Rightarrow> jsstring \<Rightarrow> jsmatch option" where
  "match_at re p xs =
     (case ms (ignoreCase re) (body re) (start_state re p xs) of
        [] \<Rightarrow> None
      | s' # _ \<Rightarrow>
          Some \<lparr>index = p, groups = (caps s')[0 := Some (take (pos s' - p) xs)]\<rparr>)"

fun search :: "regexp \<Rightarrow> nat \<Rightarrow> jsstring \<Rightarrow> jsmatch option" where
  "search re p [] = match_at re p []"
| "search re p (x # xs) =
     (case match_at re p (x # xs) of
        Some m \<Rightarrow> Some m
      | None \<Rightarrow> search re (Suc p) xs)"

text \<open>\<^verbatim>\<open>s.match(re)\<close>, which is \<^verbatim>\<open>re.exec(s)\<close> for these patterns; \<open>None\<close> is \<^verbatim>\<open>null\<close>.\<close>

definition match :: "jsstring \<Rightarrow> regexp \<Rightarrow> jsmatch option" where
  "match s re = search re 0 s"

text \<open>\<^verbatim>\<open>m[i]\<close> on a match array: \<^verbatim>\<open>undefined\<close> for a group that did not take part and
  beyond the end of the array.\<close>

definition at :: "jsmatch \<Rightarrow> nat \<Rightarrow> jsstring option" where
  "at m i = (if i < length (groups m) then groups m ! i else None)"

text \<open>\<^verbatim>\<open>s.replace(re, '')\<close> for a pattern without the \<^verbatim>\<open>g\<close> flag: the first match is cut out.\<close>

definition replace_empty :: "jsstring \<Rightarrow> regexp \<Rightarrow> jsstring" where
  "replace_empty s re =
     (case match s re of
        None \<Rightarrow> s
      | Some m \<Rightarrow>
          (case at m 0 of
             None \<Rightarrow> s
           | Some w \<Rightarrow> take (index m) s @ drop (index m + length w) s))"

text \<open>Writing patterns: a sequence of patterns, a literal character, a literal word.\<close>

fun seqs :: "regex list \<Rightarrow> regex" where
  "seqs [] = Eps"
| "seqs (r # rs) = Seq r (seqs rs)"

definition cu :: "char \<Rightarrow> jschar" where
  "cu c = of_nat (of_char c)"

definition re_lit :: "char \<Rightarrow> regex" where
  "re_lit c = Atom (Lit (cu c))"

definition re_word :: "string \<Rightarrow> regex" where
  "re_word w = seqs (map re_lit w)"

text \<open>The quantifiers \<^verbatim>\<open>*\<close>, \<^verbatim>\<open>+\<close>, \<^verbatim>\<open>?\<close>, \<^verbatim>\<open>*?\<close>, \<^verbatim>\<open>{n}\<close> and \<^verbatim>\<open>{lo,hi}\<close>.\<close>

definition re_star :: "cclass \<Rightarrow> regex" where
  "re_star c = Rep c 0 None True"

definition re_plus :: "cclass \<Rightarrow> regex" where
  "re_plus c = Rep c 1 None True"

definition re_opt :: "cclass \<Rightarrow> regex" where
  "re_opt c = Rep c 0 (Some 1) True"

definition re_lazy :: "cclass \<Rightarrow> regex" where
  "re_lazy c = Rep c 0 None False"

definition re_times :: "cclass \<Rightarrow> nat \<Rightarrow> regex" where
  "re_times c n = Rep c n (Some n) True"

definition re_between :: "cclass \<Rightarrow> nat \<Rightarrow> nat \<Rightarrow> regex" where
  "re_between c lo hi = Rep c lo (Some hi) True"

section \<open>Numbers and dates\<close>

text \<open>
  \<^verbatim>\<open>parseInt(x)\<close> with no radix: the argument is converted to a string (\<^verbatim>\<open>undefined\<close> becomes
  the word "undefined"), leading white space and a sign are skipped, a prefix \<^verbatim>\<open>0x\<close>
  selects radix 16, and the longest run of digits is read; no digit gives \<^verbatim>\<open>NaN\<close>, here
  \<open>None\<close>. The value is exact below \<open>2 ^ 53\<close>; the code only passes captures of at most
  four digits.
\<close>

definition digit_value :: "jschar \<Rightarrow> nat" where
  "digit_value c =
     (if is_digit c then unat c - 0x30
      else if is_lower c then unat c - 0x61 + 10
      else if is_upper c then unat c - 0x41 + 10
      else 36)"

definition is_radix_digit :: "nat \<Rightarrow> jschar \<Rightarrow> bool" where
  "is_radix_digit r c \<longleftrightarrow> digit_value c < r"

definition digits_value :: "nat \<Rightarrow> jsstring \<Rightarrow> nat" where
  "digits_value r z = foldl (\<lambda>a c. a * r + digit_value c) 0 z"

definition parseInt :: "jsstring option \<Rightarrow> int option" where
  "parseInt x =
     (let inputString = (case x of None \<Rightarrow> js ''undefined'' | Some str \<Rightarrow> str);
          s = dropWhile is_space inputString;
          sign = (if take 1 s = js ''-'' then - 1 else 1 :: int);
          s1 = (if take 1 s = js ''-'' \<or> take 1 s = js ''+'' then drop 1 s else s);
          hex = (take 2 s1 = js ''0x'' \<or> take 2 s1 = js ''0X'');
          r = (if hex then 16 else 10);
          s2 = (if hex then drop 2 s1 else s1);
          z = takeWhile (is_radix_digit r) s2
      in if z = [] then None else Some (sign * int (digits_value r z)))"

text \<open>\<^verbatim>\<open>n || 1\<close> on a number: \<^verbatim>\<open>NaN\<close> and zero are falsy.\<close>

definition or_one :: "int option \<Rightarrow> int" where
  "or_one n = (case n of None \<Rightarrow> 1 | Some k \<Rightarrow> if k = 0 then 1 else k)"

text \<open>
  The object made by \<^verbatim>\<open>new Date(year, monthIndex, day)\<close>, kept as the three arguments of
  its construction: the year (\<open>None\<close> for \<^verbatim>\<open>NaN\<close>), the month counted from 0, and the day
  of the month.
\<close>

datatype jsdate = NewDate "int option" int int

section \<open>The extractors of \<^verbatim>\<open>src/app/api/papers/route.ts\<close>\<close>

datatype error = PdfError | TypeError

subsection \<open>\<^verbatim>\<open>extractTitle\<close>\<close>

text \<open>\<^verbatim>\<open>/^\d+\./\<close>\<close>

definition title_number_re :: regexp where
  "title_number_re =
     \<lparr>body = seqs [Bol, re_plus Digit, re_lit CHR ''.''], ngroups = 0, ignoreCase = False\<rparr>"

text \<open>\<^verbatim>\<open>/^(abstract|introduction|conclusion)/i\<close>\<close>

definition title_keyword_re :: regexp where
  "title_keyword_re =
     \<lparr>body = seqs [Bol, Group 1 (Alt (re_word ''abstract'')
                               (Alt (re_word ''introduction'') (re_word ''conclusion'')))],
      ngroups = 1, ignoreCase = True\<rparr>"

text \<open>\<^verbatim>\<open>/^[A-Z\s]+$/\<close>\<close>

definition title_upper_re :: regexp where
  "title_upper_re =
     \<lparr>body = seqs [Bol, re_plus (Union (Range (cu CHR ''A'') (cu CHR ''Z'')) Space), Eol],
      ngroups = 0, ignoreCase = False\<rparr>"

text \<open>
  The loop of \<^verbatim>\<open>extractTitle\<close> over the lines: the first line whose trimmed form passes
  every test is returned, trimmed; \<open>None\<close> is \<^verbatim>\<open>null\<close>.
\<close>

fun title_loop :: "jsstring list \<Rightarrow> jsstring option" where
  "title_loop [] = None"
| "title_loop (line # lines) =
     (let trimmed = trim line
      in if length trimmed > 10 \<and> length trimmed < 200
            \<and> match trimmed title_number_re = None
            \<and> match trimmed title_keyword_re = None
            \<and> match trimmed title_upper_re = None
            \<and> includes_space trimmed
         then Some trimmed
         else title_loop lines)"

definition extractTitle :: "jsstring \<Rightarrow> jsstring option" where
  "extractTitle text = title_loop (slice0 10 (split_nl text))"

subsection \<open>\<^verbatim>\<open>extractAuthors\<close>\<close>

text \<open>\<^verbatim>\<open>/^[A-Z][a-z]+\s+[A-Z][a-z]+/\<close>\<close>

definition author_name_re :: regexp where
  "author_name_re =
     \<lparr>body = seqs [Bol,
                   Atom (Range (cu CHR ''A'') (cu CHR ''Z'')),
                   re_plus (Range (cu CHR ''a'') (cu CHR ''z'')),
                   re_plus Space,
                   Atom (Range (cu CHR ''A'') (cu CHR ''Z'')),
                   re_plus (Range (cu CHR ''a'') (cu CHR ''z''))],
      ngroups = 0, ignoreCase = False\<rparr>"

text \<open>\<^verbatim>\<open>/^(Abstract|Introduction|Conclusion)/i\<close>\<close>

definition author_keyword_re :: regexp where
  "author_keyword_re =
     \<lparr>body = seqs [Bol, Group 1 (Alt (re_word ''Abstract'')
                               (Alt (re_word ''Introduction'') (re_word ''Conclusion'')))],
      ngroups = 1, ignoreCase = True\<rparr>"

text \<open>The loop of \<^verbatim>\<open>extractAuthors\<close>, with the array \<^verbatim>\<open>authors\<close> that it pushes to.\<close>

fun authors_loop :: "jsstring list \<Rightarrow> jsstring list \<Rightarrow> jsstring list" where
  "authors_loop [] authors = authors"
| "authors_loop (line # lines) authors =
     (let trimmed = trim line
      in if match trimmed author_name_re \<noteq> None
            \<and> match trimmed author_keyword_re = None
         then authors_loop lines (authors @ [trimmed])
         else authors_loop lines authors)"

definition extractAuthors :: "jsstring \<Rightarrow> jsstring list" where
  "extractAuthors text = slice0 5 (authors_loop (slice0 20 (split_nl text)) [])"

subsection \<open>\<^verbatim>\<open>extractAbstract\<close>\<close>

text \<open>\<^verbatim>\<open>/abstract\s*:?\s*(.*?)(?=introduction|1\.|keywords|key\s*words)/is\<close>; with the flag
  \<^verbatim>\<open>s\<close> the dot matches every character.\<close>

definition abstract_re :: regexp where
  "abstract_re =
     \<lparr>body = seqs [re_word ''abstract'', re_star Space, re_opt (Lit (cu CHR '':'')), re_star Space,
                   Group 1 (re_lazy AnyChar),
                   Look (Alt (re_word ''introduction'')
                        (Alt (seqs [re_lit CHR ''1'', re_lit CHR ''.''])
                        (Alt (re_word ''keywords'')
                             (seqs [re_word ''key'', re_star Space, re_word ''words'']))))],
      ngroups = 1, ignoreCase = True\<rparr>"

text \<open>Calling \<^verbatim>\<open>trim\<close> on \<^verbatim>\<open>undefined\<close> throws a TypeError.\<close>

definition extractAbstract :: "jsstring \<Rightarrow> error + jsstring option" where
  "extractAbstract text =
     (case match text abstract_re of
        Some abstractMatch \<Rightarrow>
          (case at abstractMatch 1 of
             None \<Rightarrow> Inl TypeError
           | Some g \<Rightarrow> Inr (Some (substring0 1000 (trim g))))
      | None \<Rightarrow> Inr None)"

subsection \<open>\<^verbatim>\<open>extractDOI\<close>\<close>

text \<open>
  \<^verbatim>\<open>/doi\s*:?\s*10\.\d+\/[^\s]+/i\<close> and \<^verbatim>\<open>/doi\s*:?\s*/i\<close>: the second pattern is the
  beginning of the first, the label; the rest of the first is the DOI itself.
\<close>

definition doi_label :: "regex list" where
  "doi_label = [re_word ''doi'', re_star Space, re_opt (Lit (cu CHR '':'')), re_star Space]"

definition doi_token :: "regex list" where
  "doi_token =
     [re_word ''10'', re_lit CHR ''.'', re_plus Digit, re_lit CHR ''/'', re_plus (Neg Space)]"

definition doi_re :: regexp where
  "doi_re = \<lparr>body = seqs (doi_label @ doi_token), ngroups = 0, ignoreCase = True\<rparr>"

definition doi_label_re :: regexp where
  "doi_label_re = \<lparr>body = seqs doi_label, ngroups = 0, ignoreCase = True\<rparr>"

definition extractDOI :: "jsstring \<Rightarrow> error + jsstring option" where
  "extractDOI text =
     (case match text doi_re of
        Some doiMatch \<Rightarrow>
          (case at doiMatch 0 of
             None \<Rightarrow> Inl TypeError
           | Some m0 \<Rightarrow> Inr (Some (replace_empty m0 doi_label_re)))
      | None \<Rightarrow> Inr None)"

subsection \<open>\<^verbatim>\<open>extractPublicationDate\<close>\<close>

text \<open>The characters U+5E74 and U+6708 of the first pattern.\<close>

definition nen :: jschar where
  "nen = 0x5E74"

definition gatsu :: jschar where
  "gatsu = 0x6708"

text \<open>The array \<^verbatim>\<open>datePatterns\<close>: the year-and-month notation of Japanese
  (\<^verbatim>\<open>(\d{4})\s*\<close>, U+5E74, \<^verbatim>\<open>\s*(\d{1,2})\s*\<close>, U+6708), then
  \<^verbatim>\<open>/(\d{4})[-\/](\d{1,2})[-\/](\d{1,2})/\<close>, then \<^verbatim>\<open>/(\d{4})\s+(\d{1,2})\s+(\d{1,2})/\<close>.\<close>

definition date_sep :: cclass where
  "date_sep = Union (Lit (cu CHR ''-'')) (Lit (cu CHR ''/''))"

definition date_kanji_re :: regexp where
  "date_kanji_re =
     \<lparr>body = seqs [Group 1 (re_times Digit 4), re_star Space, Atom (Lit nen), re_star Space,
                   Group 2 (re_between Digit 1 2), re_star Space, Atom (Lit gatsu)],
      ngroups = 2, ignoreCase = False\<rparr>"

definition date_numeric_re :: regexp where
  "date_numeric_re =
     \<lparr>body = seqs [Group 1 (re_times Digit 4), Atom date_sep,
                   Group 2 (re_between Digit 1 2), Atom date_sep,
                   Group 3 (re_between Digit 1 2)],
      ngroups = 3, ignoreCase = False\<rparr>"

definition date_spaced_re :: regexp where
  "date_spaced_re =
     \<lparr>body = seqs [Group 1 (re_times Digit 4), re_plus Space,
                   Group 2 (re_between Digit 1 2), re_plus Space,
                   Group 3 (re_between Digit 1 2)],
      ngroups = 3, ignoreCase = False\<rparr>"

definition datePatterns :: "regexp list" where
  "datePatterns = [date_kanji_re, date_numeric_re, date_spaced_re]"

fun date_loop :: "regexp list \<Rightarrow> jsstring \<Rightarrow> jsdate option" where
  "date_loop [] text = None"
| "date_loop (pattern # patterns) text =
     (case match text pattern of
        Some m \<Rightarrow>
          (let year = parseInt (at m 1);
               month = or_one (parseInt (at m 2));
               day = or_one (parseInt (at m 3))
           in Some (NewDate year (month - 1) day))
      | None \<Rightarrow> date_loop patterns text)"

definition extractPublicationDate :: "jsstring \<Rightarrow> jsdate option" where
  "extractPublicationDate text = date_loop datePatterns text"

subsection \<open>\<^verbatim>\<open>extractJournal\<close>\<close>

text \<open>The array \<^verbatim>\<open>journalPatterns\<close>: \<^verbatim>\<open>/published\s+in\s+([^,]+)/i\<close>,
  \<^verbatim>\<open>/journal\s+of\s+([^,]+)/i\<close>, \<^verbatim>\<open>/proceedings\s+of\s+([^,]+)/i\<close>. Each is a phrase
  followed by the group \<^verbatim>\<open>([^,]+)\<close>.\<close>

definition not_comma :: cclass where
  "not_comma = Neg (Lit (cu CHR '',''))"

definition published_phrase :: "regex list" where
  "published_phrase = [re_word ''published'', re_plus Space, re_word ''in'', re_plus Space]"

definition journal_of_phrase :: "regex list" where
  "journal_of_phrase = [re_word ''journal'', re_plus Space, re_word ''of'', re_plus Space]"

definition proceedings_phrase :: "regex list" where
  "proceedings_phrase = [re_word ''proceedings'', re_plus Space, re_word ''of'', re_plus Space]"

definition published_re :: regexp where
  "published_re =
     \<lparr>body = seqs (published_phrase @ [Group 1 (re_plus not_comma)]),
      ngroups = 1, ignoreCase = True\<rparr>"

definition journal_of_re :: regexp where
  "journal_of_re =
     \<lparr>body = seqs (journal_of_phrase @ [Group 1 (re_plus not_comma)]),
      ngroups = 1, ignoreCase = True\<rparr>"

definition proceedings_re :: regexp where
  "proceedings_re =
     \<lparr>body = seqs (proceedings_phrase @ [Group 1 (re_plus not_comma)]),
      ngroups = 1, ignoreCase = True\<rparr>"

definition journalPatterns :: "regexp list" where
  "journalPatterns = [published_re, journal_of_re, proceedings_re]"

fun journal_loop :: "regexp list \<Rightarrow> jsstring \<Rightarrow> error + jsstring option" where
  "journal_loop [] text = Inr None"
| "journal_loop (pattern # patterns) text =
     (case match text pattern of
        Some m \<Rightarrow>
          (case at m 1 of
             None \<Rightarrow> Inl TypeError
           | Some g \<Rightarrow> Inr (Some (trim g)))
      | None \<Rightarrow> journal_loop patterns text)"

definition extractJournal :: "jsstring \<Rightarrow> error + jsstring option" where
  "extractJournal text = journal_loop journalPatterns text"

subsection \<open>\<^verbatim>\<open>extractBasicInfo\<close>\<close>

text \<open>
  A property of the returned object is a string or a date, \<^verbatim>\<open>null\<close> (what an extractor
  returns when nothing matches), or is not there at all (\<^verbatim>\<open>undefined\<close>: the object of the
  \<^verbatim>\<open>catch\<close> branch has only \<^verbatim>\<open>title\<close> and \<^verbatim>\<open>authors\<close>).
\<close>

datatype 'a optional = Undefined | Null | Value 'a

definition nullable :: "'a option \<Rightarrow> 'a optional" where
  "nullable x = (case x of None \<Rightarrow> Null | Some v \<Rightarrow> Value v)"

record ExtractedMetadata =
  title :: jsstring
  authors :: "jsstring list"
  abstract :: "jsstring optional"
  doi :: "jsstring optional"
  publicationDate :: "jsdate optional"
  journal :: "jsstring optional"

text \<open>The string literal of the source for a title that was not found: the code units
  U+30BF U+30A4 U+30C8 U+30EB U+4E0D U+660E.\<close>

definition unknown_title :: jsstring where
  "unknown_title = [0x30BF, 0x30A4, 0x30C8, 0x30EB, 0x4E0D, 0x660E]"

text \<open>\<^verbatim>\<open>title || d\<close> on a string or \<^verbatim>\<open>null\<close>: \<^verbatim>\<open>null\<close> and the empty string are falsy.\<close>

definition or_string :: "jsstring option \<Rightarrow> jsstring \<Rightarrow> jsstring" where
  "or_string x d = (case x of None \<Rightarrow> d | Some t \<Rightarrow> if t = [] then d else t)"

text \<open>The object returned by the \<^verbatim>\<open>catch\<close> branch.\<close>

definition degraded :: ExtractedMetadata where
  "degraded =
     \<lparr>title = unknown_title, authors = [], abstract = Undefined, doi = Undefined,
      publicationDate = Undefined, journal = Undefined\<rparr>"

text \<open>
  \<^verbatim>\<open>extractBasicInfo\<close>. The library function \<^verbatim>\<open>pdf\<close> (of the package pdf-parse) is a
  parameter: it gives the text of the document or fails. The whole body is inside
  \<^verbatim>\<open>try\<close>, so a failure of \<^verbatim>\<open>pdf\<close> and an exception of an extractor both end in the
  \<^verbatim>\<open>catch\<close> branch, which logs the error and returns the object above.
\<close>

type_synonym buffer = "8 word list"

definition extractBasicInfo :: "(buffer \<Rightarrow> error + jsstring) \<Rightarrow> buffer \<Rightarrow> ExtractedMetadata" where
  "extractBasicInfo pdf pdfBuffer =
     (case pdf pdfBuffer of
        Inl e \<Rightarrow> degraded
      | Inr text \<Rightarrow>
          (let title' = extractTitle text;
               authors' = extractAuthors text
           in case extractAbstract text of
                Inl e \<Rightarrow> degraded
              | Inr abstract' \<Rightarrow>
                  (case extractDOI text of
                     Inl e \<Rightarrow> degraded
                   | Inr doi' \<Rightarrow>
                       (let publicationDate' = extractPublicationDate text
                        in case extractJournal text of
                             Inl e \<Rightarrow> degraded
                           | Inr journal' \<Rightarrow>
                               \<lparr>title = or_string title' unknown_title,
                                authors = authors',
                                abstract = nullable abstract',
                                doi = nullable doi',
                                publicationDate = nullable publicationDate',
                                journal = nullable journal'\<rparr>))))"

section \<open>What a pattern can match\<close>

text \<open>
  The words that a pattern can consume, read off the pattern alone (a lookahead and an
  anchor consume nothing); the matcher is compared with them below.
\<close>

fun lang :: "bool \<Rightarrow> regex \<Rightarrow> jsstring set" where
  "lang ic (Atom c) = {[x] | x. in_class ic c x}"
| "lang ic (Rep c lo hi greedy) =
     {w. list_all (in_class ic c) w \<and> lo \<le> length w
         \<and> (case hi of None \<Rightarrow> True | Some h \<Rightarrow> length w \<le> h)}"
| "lang ic (Seq a b) = {u @ v | u v. u \<in> lang ic a \<and> v \<in> lang ic b}"
| "lang ic (Alt a b) = lang ic a \<union> lang ic b"
| "lang ic (Group n r) = lang ic r"
| "lang ic (Look r) = {[]}"
| "lang ic Bol = {[]}"
| "lang ic Eol = {[]}"
| "lang ic Eps = {[]}"

text \<open>A pattern without lookahead and anchors.\<close>

fun plain :: "regex \<Rightarrow> bool" where
  "plain (Seq a b) \<longleftrightarrow> plain a \<and> plain b"
| "plain (Alt a b) \<longleftrightarrow> plain a \<and> plain b"
| "plain (Group n r) \<longleftrightarrow> plain r"
| "plain (Look r) \<longleftrightarrow> False"
| "plain Bol \<longleftrightarrow> False"
| "plain Eol \<longleftrightarrow> False"
| "plain r \<longleftrightarrow> True"

text \<open>\<open>must_set n r\<close>: every way through \<open>r\<close> goes through group \<open>n\<close>.\<close>

fun must_set :: "nat \<Rightarrow> regex \<Rightarrow> bool" where
  "must_set n (Group k r) \<longleftrightarrow> k = n \<or> must_set n r"
| "must_set n (Seq a b) \<longleftrightarrow> must_set n a \<or> must_set n b"
| "must_set n (Alt a b) \<longleftrightarrow> must_set n a \<and> must_set n b"
| "must_set n (Look r) \<longleftrightarrow> must_set n r"
| "must_set n r \<longleftrightarrow> False"

text \<open>\<open>mentions n r\<close>: group \<open>n\<close> is somewhere in \<open>r\<close>.\<close>

fun mentions :: "nat \<Rightarrow> regex \<Rightarrow> bool" where
  "mentions n (Group k r) \<longleftrightarrow> k = n \<or> mentions n r"
| "mentions n (Seq a b) \<longleftrightarrow> mentions n a \<or> mentions n b"
| "mentions n (Alt a b) \<longleftrightarrow> mentions n a \<or> mentions n b"
| "mentions n (Look r) \<longleftrightarrow> mentions n r"
| "mentions n r \<longleftrightarrow> False"

text \<open>A pattern matches somewhere in a text: a piece of the text is one of its words.\<close>

definition matches_in :: "regexp \<Rightarrow> jsstring \<Rightarrow> bool" where
  "matches_in re doc \<longleftrightarrow>
     (\<exists>pre w post. doc = pre @ w @ post \<and> w \<in> lang (ignoreCase re) (body re))"

section \<open>The rules in the words of the specification\<close>

text \<open>
  The definitions of this section are not taken from the code. They say, without
  patterns, what the specification says that the extractors look for; the theorems
  below compare them with the code. Where the words of the specification are wider
  than what the code tests (the rule for an upper-case line and the rule for white
  space in a title), both readings are defined: the one that the code applies, and the
  one as worded.
\<close>

subsection \<open>Lines\<close>

text \<open>
  The first \<open>n\<close> lines of a text, each trimmed: what the loops of \<^verbatim>\<open>extractTitle\<close>
  (\<open>n = 10\<close>) and \<^verbatim>\<open>extractAuthors\<close> (\<open>n = 20\<close>) go through.
\<close>

definition normalized_lines :: "nat \<Rightarrow> jsstring \<Rightarrow> jsstring list" where
  "normalized_lines n text = map trim (slice0 n (split_nl text))"

text \<open>Two strings that differ at most in the case of the letters a to z.\<close>

definition same_ignoring_case :: "jsstring \<Rightarrow> jsstring \<Rightarrow> bool" where
  "same_ignoring_case u v \<longleftrightarrow> map (canonicalize True) u = map (canonicalize True) v"

text \<open>A line that starts with a section keyword, in any case.\<close>

definition keyword_start :: "jsstring \<Rightarrow> bool" where
  "keyword_start t \<longleftrightarrow>
     (\<exists>w z. t = w @ z
        \<and> (same_ignoring_case w (js ''abstract'') \<or> same_ignoring_case w (js ''introduction'')
           \<or> same_ignoring_case w (js ''conclusion'')))"

text \<open>A line that starts with the marker of a numbered list: digits and a period.\<close>

definition number_start :: "jsstring \<Rightarrow> bool" where
  "number_start t \<longleftrightarrow>
     (\<exists>ds z. t = ds @ cu CHR ''.'' # z \<and> ds \<noteq> [] \<and> list_all is_digit ds)"

text \<open>
  A non-empty line made of the letters A to Z and of white space only: upper case as
  the code tests it, with \<^verbatim>\<open>/^[A-Z\s]+$/\<close>.
\<close>

definition ascii_upper_only :: "jsstring \<Rightarrow> bool" where
  "ascii_upper_only t \<longleftrightarrow> t \<noteq> [] \<and> list_all (\<lambda>c. is_upper c \<or> is_space c) t"

text \<open>
  The rules for a title as the code applies them: more than 10 and fewer than 200 code
  units, no list marker and no section keyword at the start, not made of the letters A
  to Z and white space only, and a space character (U+0020) somewhere.
\<close>

definition acceptable_title :: "jsstring \<Rightarrow> bool" where
  "acceptable_title t \<longleftrightarrow>
     10 < length t \<and> length t < 200 \<and> \<not> number_start t \<and> \<not> keyword_start t
     \<and> \<not> ascii_upper_only t \<and> includes_space t"

text \<open>
  The same rules as the specification words them, where ``entirely uppercase'' is not
  bound to the letters A to Z and ``contains at least one whitespace character'' is not
  bound to the space character. A capital letter is here one of Basic Latin or of the
  Latin-1 Supplement (U+00C0 to U+00DE without the multiplication sign U+00D7); the
  capitals of the other alphabets are left out, so that a line that is entirely
  upper case in this sense is so in every other.
\<close>

definition is_capital :: "jschar \<Rightarrow> bool" where
  "is_capital c \<longleftrightarrow> is_upper c \<or> (0xC0 \<le> c \<and> c \<le> 0xDE \<and> c \<noteq> 0xD7)"

definition entirely_uppercase :: "jsstring \<Rightarrow> bool" where
  "entirely_uppercase t \<longleftrightarrow> t \<noteq> [] \<and> list_all (\<lambda>c. is_capital c \<or> is_space c) t"

definition contains_whitespace :: "jsstring \<Rightarrow> bool" where
  "contains_whitespace t \<longleftrightarrow> list_ex is_space t"

definition title_rule_as_worded :: "jsstring \<Rightarrow> bool" where
  "title_rule_as_worded t \<longleftrightarrow>
     10 < length t \<and> length t < 200 \<and> \<not> number_start t \<and> \<not> keyword_start t
     \<and> \<not> entirely_uppercase t \<and> contains_whitespace t"

text \<open>A capitalized word: a letter A to Z followed by one or more letters a to z.\<close>

definition capitalized :: "jsstring \<Rightarrow> bool" where
  "capitalized w \<longleftrightarrow> (\<exists>u ls. w = u # ls \<and> is_upper u \<and> ls \<noteq> [] \<and> list_all is_lower ls)"

text \<open>A line that starts with two capitalized words with white space between them.\<close>

definition name_start :: "jsstring \<Rightarrow> bool" where
  "name_start t \<longleftrightarrow>
     (\<exists>w1 sp w2 z. t = w1 @ sp @ w2 @ z \<and> capitalized w1 \<and> sp \<noteq> [] \<and> list_all is_space sp
        \<and> capitalized w2)"

text \<open>The rule for a line of authors.\<close>

definition qualifies :: "jsstring \<Rightarrow> bool" where
  "qualifies t \<longleftrightarrow> name_start t \<and> \<not> keyword_start t"

text \<open>The same two tests as the code makes them, with its patterns, on a trimmed line.\<close>

definition author_line :: "jsstring \<Rightarrow> bool" where
  "author_line trimmed \<longleftrightarrow>
     match trimmed author_name_re \<noteq> None \<and> match trimmed author_keyword_re = None"

definition title_line :: "jsstring \<Rightarrow> bool" where
  "title_line trimmed \<longleftrightarrow>
     length trimmed > 10 \<and> length trimmed < 200
     \<and> match trimmed title_number_re = None
     \<and> match trimmed title_keyword_re = None
     \<and> match trimmed title_upper_re = None
     \<and> includes_space trimmed"

subsection \<open>The DOI\<close>

text \<open>
  A DOI-shaped token: \<^verbatim>\<open>10.\<close> followed by digits, a slash, and characters that are not
  white space.
\<close>

definition doi_shaped :: "jsstring \<Rightarrow> bool" where
  "doi_shaped d \<longleftrightarrow>
     (\<exists>ds ns. d = js ''10.'' @ ds @ js ''/'' @ ns
        \<and> ds \<noteq> [] \<and> list_all is_digit ds
        \<and> ns \<noteq> [] \<and> list_all (\<lambda>c. \<not> is_space c) ns)"

subsection \<open>Dates\<close>

text \<open>A string of between \<open>lo\<close> and \<open>hi\<close> decimal digits, and the number that it writes.\<close>

definition digits :: "nat \<Rightarrow> nat \<Rightarrow> jsstring \<Rightarrow> bool" where
  "digits lo hi g \<longleftrightarrow> list_all is_digit g \<and> lo \<le> length g \<and> length g \<le> hi"

definition decimal :: "jsstring \<Rightarrow> int" where
  "decimal g = int (digits_value 10 g)"

subsection \<open>The journal\<close>

text \<open>
  A phrase occurs in a text, followed by at least one character to capture; and a
  captured text stands right after the phrase and goes up to the next comma or to the
  end of the text.
\<close>

definition comma :: jschar where
  "comma = cu CHR '',''"

definition occurs :: "regex list \<Rightarrow> jsstring \<Rightarrow> bool" where
  "occurs phrase doc \<longleftrightarrow>
     (\<exists>pre kw c post. doc = pre @ kw @ c # post \<and> kw \<in> lang True (seqs phrase) \<and> c \<noteq> comma)"

definition captured_after :: "regex list \<Rightarrow> jsstring \<Rightarrow> jsstring \<Rightarrow> bool" where
  "captured_after phrase doc g \<longleftrightarrow>
     (\<exists>pre kw post. doc = pre @ kw @ g @ post \<and> kw \<in> lang True (seqs phrase)
        \<and> g \<noteq> [] \<and> list_all (\<lambda>c. c \<noteq> comma) g \<and> (post = [] \<or> hd post = comma))"

section \<open>Properties of the model\<close>

subsection \<open>Characters\<close>

lemma lower_to_upper: "is_lower a \<Longrightarrow> is_upper (a - 0x20)"
  unfolding is_lower_def is_upper_def by unat_arith

lemma upper_not_lower: "is_upper a \<Longrightarrow> \<not> is_lower a"
  unfolding is_lower_def is_upper_def by unat_arith

lemma in_class_letter:
  assumes "is_lower a"
  shows "in_class True (Lit a) c \<longleftrightarrow> c = a \<or> c = a - 0x20"
proof -
  from assms have u: "\<not> is_lower (a - 0x20)" using lower_to_upper upper_not_lower by blast
  show ?thesis
  proof (cases "is_lower c")
    case True
    with u have "c \<noteq> a - 0x20" by auto
    with True assms show ?thesis by (simp add: canonicalize_def)
  next
    case False
    with assms have "c \<noteq> a" by auto
    with False assms show ?thesis by (simp add: canonicalize_def)
  qed
qed

lemma in_class_symbol:
  assumes "\<not> is_lower a" "\<not> is_upper a"
  shows "in_class ic (Lit a) c \<longleftrightarrow> c = a"
proof (cases "ic \<and> is_lower c")
  case True
  then have "is_upper (c - 0x20)" using lower_to_upper by blast
  with assms(2) have "c - 0x20 \<noteq> a" by auto
  moreover from True assms(1) have "c \<noteq> a" by auto
  ultimately show ?thesis using True assms(1) by (simp add: canonicalize_def)
next
  case False
  with assms(1) show ?thesis by (auto simp: canonicalize_def)
qed

lemma in_class_eta:
  "in_class ic Space = is_space"
  "in_class ic Digit = is_digit"
  "in_class ic (Neg c) = (\<lambda>x. \<not> in_class ic c x)"
  by (rule ext, simp)+

lemma colon_class: "in_class ic (Lit (cu CHR '':'')) c \<longleftrightarrow> c = cu CHR '':''"
  by (rule in_class_symbol) (simp_all add: cu_def is_lower_def is_upper_def)

lemma digit1_class: "in_class ic (Lit (cu CHR ''1'')) c \<longleftrightarrow> c = cu CHR ''1''"
  by (rule in_class_symbol) (simp_all add: cu_def is_lower_def is_upper_def)

lemma digit0_class: "in_class ic (Lit (cu CHR ''0'')) c \<longleftrightarrow> c = cu CHR ''0''"
  by (rule in_class_symbol) (simp_all add: cu_def is_lower_def is_upper_def)

lemma dot_class: "in_class ic (Lit (cu CHR ''.'')) c \<longleftrightarrow> c = cu CHR ''.''"
  by (rule in_class_symbol) (simp_all add: cu_def is_lower_def is_upper_def)

lemma slash_class: "in_class ic (Lit (cu CHR ''/'')) c \<longleftrightarrow> c = cu CHR ''/''"
  by (rule in_class_symbol) (simp_all add: cu_def is_lower_def is_upper_def)

lemma d_class: "in_class True (Lit (cu CHR ''d'')) c \<longleftrightarrow> c = cu CHR ''d'' \<or> c = cu CHR ''D''"
proof -
  have "is_lower (cu CHR ''d'')" by (simp add: cu_def is_lower_def)
  from in_class_letter [OF this] show ?thesis by (simp add: cu_def)
qed

lemma comma_class: "in_class ic not_comma c \<longleftrightarrow> c \<noteq> comma"
proof -
  have "in_class ic (Lit (cu CHR '','')) c \<longleftrightarrow> c = cu CHR '',''"
    by (rule in_class_symbol) (simp_all add: cu_def is_lower_def is_upper_def)
  then show ?thesis by (simp add: not_comma_def comma_def del: in_class.simps(1))
qed

lemma in_class_upper: "in_class False (Range (cu CHR ''A'') (cu CHR ''Z'')) = is_upper"
  by (rule ext) (simp add: is_upper_def cu_def canonicalize_def)

lemma in_class_lower: "in_class False (Range (cu CHR ''a'') (cu CHR ''z'')) = is_lower"
  by (rule ext) (simp add: is_lower_def cu_def canonicalize_def)

lemma digit_not_space: "is_digit c \<Longrightarrow> \<not> is_space c"
  unfolding is_digit_def is_space_def by (auto simp: word_le_nat_alt)

lemma digit_radix: "is_digit c \<Longrightarrow> is_radix_digit 10 c"
  unfolding is_radix_digit_def digit_value_def is_digit_def
  by (auto simp: word_le_nat_alt)


subsection \<open>Lines and trimming\<close>

lemma split_nl_not_Nil: "split_nl s \<noteq> []"
  by (cases s) (simp_all add: Let_def)

lemma length_split_nl: "length (split_nl s) = Suc (length (filter (\<lambda>c. c = 0x0A) s))"
proof (induction s)
  case Nil
  show ?case by simp
next
  case (Cons c cs)
  have "split_nl cs \<noteq> []" by (rule split_nl_not_Nil)
  with Cons show ?case by (cases "split_nl cs") (simp_all add: Let_def)
qed

lemma trim_no_leading_space: "trim s \<noteq> [] \<Longrightarrow> \<not> is_space (hd (trim s))"
proof -
  assume a: "trim s \<noteq> []"
  let ?d = "dropWhile is_space s"
  have t: "trim s = rev (dropWhile is_space (rev ?d))" by (simp add: trim_def)
  have dn: "?d \<noteq> []"
  proof
    assume "?d = []"
    then have "trim s = rev (dropWhile is_space (rev []))" by (simp only: trim_def)
    with a show False by simp
  qed
  then have h: "\<not> is_space (hd ?d)" by (rule hd_dropWhile)
  from a t have "dropWhile is_space (rev ?d) \<noteq> []" by simp
  have "\<exists>zs. ?d = trim s @ zs"
    unfolding t by (metis rev_append rev_rev_ident takeWhile_dropWhile_id)
  then obtain zs where "?d = trim s @ zs" by blast
  with a have "hd ?d = hd (trim s)" by (metis hd_append2)
  with h show ?thesis by simp
qed

lemma trim_no_trailing_space: "trim s \<noteq> [] \<Longrightarrow> \<not> is_space (last (trim s))"
proof -
  assume a: "trim s \<noteq> []"
  let ?r = "dropWhile is_space (rev (dropWhile is_space s))"
  have t: "trim s = rev ?r" by (simp add: trim_def)
  with a have "?r \<noteq> []" by auto
  then have "\<not> is_space (hd ?r)" by (rule hd_dropWhile)
  moreover have "last (trim s) = hd ?r" unfolding t using \<open>?r \<noteq> []\<close> by (simp add: last_rev)
  ultimately show ?thesis by simp
qed


subsection \<open>The matcher and the words of a pattern\<close>

lemma takeWhile_prefix_length:
  "list_all P w \<Longrightarrow> length w \<le> length (takeWhile P (w @ z))"
  by (induction w) simp_all

lemma take_takeWhile_all:
  "k \<le> length (takeWhile P xs) \<Longrightarrow> list_all P (take k xs)"
proof (induction xs arbitrary: k)
  case Nil
  then show ?case by simp
next
  case (Cons x xs)
  then show ?case by (cases k) (auto split: if_splits)
qed

lemma ms_Rep_elem:
  assumes "s' \<in> set (ms ic (Rep c lo hi greedy) s)"
  shows "\<exists>k. s' = advance s k \<and> lo \<le> k \<and> k \<le> length (takeWhile (in_class ic c) (rest s))
             \<and> (case hi of None \<Rightarrow> True | Some h \<Rightarrow> k \<le> h)"
proof -
  let ?n = "length (takeWhile (in_class ic c) (rest s))"
  let ?m = "case hi of None \<Rightarrow> ?n | Some h \<Rightarrow> min ?n h"
  from assms obtain k where k: "s' = advance s k" "lo \<le> k" "k \<le> ?m"
    by (auto simp: Let_def split: if_splits)
  from k(3) have "k \<le> ?n" "case hi of None \<Rightarrow> True | Some h \<Rightarrow> k \<le> h"
    by (cases hi; simp)+
  with k(1,2) show ?thesis by blast
qed

lemma ms_sound:
  "s' \<in> set (ms ic r s) \<Longrightarrow>
   \<exists>w. rest s = w @ rest s' \<and> pos s' = pos s + length w \<and> w \<in> lang ic r
       \<and> length (caps s') = length (caps s)"
proof (induction r arbitrary: s s')
  case (Atom c)
  show ?case
  proof (cases "rest s")
    case Nil
    with Atom show ?thesis by simp
  next
    case (Cons x xs)
    with Atom have "in_class ic c x" "s' = advance s 1"
      by (auto split: if_splits)
    with Cons show ?thesis by (intro exI [of _ "[x]"]) (simp add: advance_def)
  qed
next
  case (Rep c lo hi greedy)
  from ms_Rep_elem [OF Rep] obtain k where k: "s' = advance s k" "lo \<le> k"
    "k \<le> length (takeWhile (in_class ic c) (rest s))"
    "case hi of None \<Rightarrow> True | Some h \<Rightarrow> k \<le> h" by blast
  let ?w = "take k (rest s)"
  have a: "list_all (in_class ic c) ?w" using k(3) by (rule take_takeWhile_all)
  have "k \<le> length (rest s)" using k(3) length_takeWhile_le [of "in_class ic c" "rest s"]
    by simp
  then have l: "length ?w = k" by simp
  have r: "rest s = ?w @ rest s'" using k(1) by (simp add: advance_def)
  have p: "pos s' = pos s + length ?w" using k(1) l by (simp add: advance_def)
  have c: "length (caps s') = length (caps s)" using k(1) by (simp add: advance_def)
  have "?w \<in> lang ic (Rep c lo hi greedy)" using a l k(2,4) by (cases hi) simp_all
  with r p c show ?case by blast
next
  case (Seq a b)
  from Seq.prems obtain x where x: "x \<in> set (ms ic a s)" "s' \<in> set (ms ic b x)" by auto
  from Seq.IH(1) [OF x(1)] obtain u where u: "rest s = u @ rest x"
    "pos x = pos s + length u" "u \<in> lang ic a" "length (caps x) = length (caps s)" by blast
  from Seq.IH(2) [OF x(2)] obtain v where v: "rest x = v @ rest s'"
    "pos s' = pos x + length v" "v \<in> lang ic b" "length (caps s') = length (caps x)" by blast
  have "rest s = (u @ v) @ rest s'" using u(1) v(1) by simp
  moreover have "pos s' = pos s + length (u @ v)" using u(2) v(2) by simp
  moreover have "u @ v \<in> lang ic (Seq a b)" using u(3) v(3) by auto
  moreover have "length (caps s') = length (caps s)" using u(4) v(4) by simp
  ultimately show ?case by blast
next
  case (Alt a b)
  from Alt.prems have "s' \<in> set (ms ic a s) \<or> s' \<in> set (ms ic b s)" by simp
  then show ?case
  proof
    assume "s' \<in> set (ms ic a s)"
    from Alt.IH(1) [OF this] show ?thesis by auto
  next
    assume "s' \<in> set (ms ic b s)"
    from Alt.IH(2) [OF this] show ?thesis by auto
  qed
next
  case (Group n r)
  from Group.prems obtain x where x: "x \<in> set (ms ic r s)"
    "s' = x\<lparr>caps := (caps x)[n := Some (take (pos x - pos s) (rest s))]\<rparr>" by auto
  from Group.IH [OF x(1)] obtain w where w: "rest s = w @ rest x"
    "pos x = pos s + length w" "w \<in> lang ic r" "length (caps x) = length (caps s)" by blast
  with x(2) show ?case by (intro exI [of _ w]) simp
next
  case (Look r)
  then obtain x xs where x: "ms ic r s = x # xs" "s' = s\<lparr>caps := caps x\<rparr>"
    by (cases "ms ic r s") auto
  then have "x \<in> set (ms ic r s)" by simp
  from Look.IH [OF this] obtain w where "length (caps x) = length (caps s)" by blast
  with x(2) show ?case by (intro exI [of _ "[]"]) simp
next
  case Bol
  then show ?case by (cases "pos s = 0") simp_all
next
  case Eol
  then show ?case by (cases "rest s = []") simp_all
next
  case Eps
  then show ?case by simp
qed

lemma ms_complete:
  "plain r \<Longrightarrow> w \<in> lang ic r \<Longrightarrow> rest s = w @ z \<Longrightarrow> \<exists>s' \<in> set (ms ic r s). rest s' = z"
proof (induction r arbitrary: s w z)
  case (Atom c)
  then obtain x where "w = [x]" "in_class ic c x" by auto
  with Atom.prems(3) show ?case by (simp add: advance_def)
next
  case (Rep c lo hi greedy)
  let ?n = "length (takeWhile (in_class ic c) (rest s))"
  let ?m = "case hi of None \<Rightarrow> ?n | Some h \<Rightarrow> min ?n h"
  from Rep.prems(2) have w: "list_all (in_class ic c) w" "lo \<le> length w"
    "case hi of None \<Rightarrow> True | Some h \<Rightarrow> length w \<le> h" by simp_all
  from w(1) have "length w \<le> ?n" unfolding Rep.prems(3) by (rule takeWhile_prefix_length)
  with w(3) have m: "length w \<le> ?m" by (cases hi) simp_all
  with w(2) have "\<not> ?m < lo" by simp
  moreover from m have "length w < Suc ?m" by (rule le_imp_less_Suc)
  with w(2) have "length w \<in> set [lo ..< Suc ?m]" by (simp only: set_upt atLeastLessThan_iff)
  ultimately have "advance s (length w) \<in> set (ms ic (Rep c lo hi greedy) s)"
    by (cases greedy) (simp_all add: Let_def del: upt_Suc set_upt)
  moreover have "rest (advance s (length w)) = z" using Rep.prems(3) by (simp add: advance_def)
  ultimately show ?case by blast
next
  case (Seq a b)
  from Seq.prems(2) obtain u v where uv: "w = u @ v" "u \<in> lang ic a" "v \<in> lang ic b" by auto
  from Seq.prems(1) have pl: "plain a" "plain b" by simp_all
  have "rest s = u @ (v @ z)" using Seq.prems(3) uv(1) by simp
  from Seq.IH(1) [OF pl(1) uv(2) this] obtain x where x: "x \<in> set (ms ic a s)" "rest x = v @ z"
    by blast
  from Seq.IH(2) [OF pl(2) uv(3) x(2)] obtain s' where "s' \<in> set (ms ic b x)" "rest s' = z"
    by blast
  with x(1) show ?case by auto
next
  case (Alt a b)
  from Alt.prems(2) have "w \<in> lang ic a \<or> w \<in> lang ic b" by simp
  then show ?case
  proof
    assume "w \<in> lang ic a"
    moreover from Alt.prems(1) have "plain a" by simp
    ultimately show ?thesis using Alt.IH(1) [OF _ _ Alt.prems(3)] by fastforce
  next
    assume "w \<in> lang ic b"
    moreover from Alt.prems(1) have "plain b" by simp
    ultimately show ?thesis using Alt.IH(2) [OF _ _ Alt.prems(3)] by fastforce
  qed
next
  case (Group n r)
  from Group.prems(1) have p: "plain r" by simp
  from Group.prems(2) have l: "w \<in> lang ic r" by simp
  from Group.IH [OF p l Group.prems(3)] obtain x where "x \<in> set (ms ic r s)" "rest x = z"
    by blast
  then show ?case by force
next
  case (Look r)
  then show ?case by simp
next
  case Bol
  then show ?case by simp
next
  case Eol
  then show ?case by simp
next
  case Eps
  then show ?case by simp
qed

lemma ms_Seq_mem:
  "x \<in> set (ms ic a s) \<Longrightarrow> y \<in> set (ms ic b x) \<Longrightarrow> y \<in> set (ms ic (Seq a b) s)"
  by auto

lemma ms_seqs_single: "ms ic (seqs [r]) s = ms ic r s"
proof -
  have "ms ic Eps = (\<lambda>x. [x])" by (rule ext) simp
  then show ?thesis by (simp add: concat_map_singleton)
qed

lemma ms_seqs_append_mem:
  "s' \<in> set (ms ic (seqs (xs @ ys)) s)
   \<longleftrightarrow> (\<exists>x \<in> set (ms ic (seqs xs) s). s' \<in> set (ms ic (seqs ys) x))"
  by (induction xs arbitrary: s) auto

lemma lang_seqs_append:
  "lang ic (seqs (xs @ ys)) = {u @ v | u v. u \<in> lang ic (seqs xs) \<and> v \<in> lang ic (seqs ys)}"
proof (induction xs)
  case Nil
  show ?case by simp
next
  case (Cons r rs)
  show ?case
  proof (intro set_eqI iffI)
    fix w assume "w \<in> lang ic (seqs ((r # rs) @ ys))"
    then obtain a b where ab: "w = a @ b" "a \<in> lang ic r" "b \<in> lang ic (seqs (rs @ ys))"
      by auto
    from ab(3) Cons obtain u v where uv: "b = u @ v" "u \<in> lang ic (seqs rs)"
      "v \<in> lang ic (seqs ys)" by auto
    from ab(2) uv(2) have "a @ u \<in> lang ic (seqs (r # rs))" by auto
    moreover have "w = (a @ u) @ v" using ab(1) uv(1) by simp
    ultimately show "w \<in> {u @ v | u v. u \<in> lang ic (seqs (r # rs)) \<and> v \<in> lang ic (seqs ys)}"
      using uv(3) by blast
  next
    fix w assume "w \<in> {u @ v | u v. u \<in> lang ic (seqs (r # rs)) \<and> v \<in> lang ic (seqs ys)}"
    then obtain u v where uv: "w = u @ v" "u \<in> lang ic (seqs (r # rs))"
      "v \<in> lang ic (seqs ys)" by blast
    from uv(2) obtain a b where ab: "u = a @ b" "a \<in> lang ic r" "b \<in> lang ic (seqs rs)"
      by auto
    from ab(3) uv(3) Cons have "b @ v \<in> lang ic (seqs (rs @ ys))" by blast
    with ab(2) have "a @ (b @ v) \<in> lang ic (seqs ((r # rs) @ ys))" by auto
    with uv(1) ab(1) show "w \<in> lang ic (seqs ((r # rs) @ ys))" by simp
  qed
qed

lemma lang_seqs_appendI:
  "u \<in> lang ic (seqs xs) \<Longrightarrow> v \<in> lang ic (seqs ys) \<Longrightarrow> u @ v \<in> lang ic (seqs (xs @ ys))"
  unfolding lang_seqs_append by blast

lemma lang_by_ms:
  assumes "s' \<in> set (ms ic r \<lparr>pos = 0, rest = w, caps = []\<rparr>)" "rest s' = []"
  shows "w \<in> lang ic r"
proof -
  from ms_sound [OF assms(1)] obtain u where "w = u @ rest s'" "u \<in> lang ic r" by auto
  with assms(2) show ?thesis by simp
qed

lemma lang_eval:
  assumes "list_ex (\<lambda>s'. rest s' = []) (ms ic r \<lparr>pos = 0, rest = w, caps = []\<rparr>)"
  shows "w \<in> lang ic r"
  using assms lang_by_ms unfolding list_ex_iff by blast

lemma lang_Seq_Atom:
  "w \<in> lang ic (Seq (Atom c) r) \<longleftrightarrow> (\<exists>x w'. w = x # w' \<and> in_class ic c x \<and> w' \<in> lang ic r)"
proof
  assume "w \<in> lang ic (Seq (Atom c) r)"
  then obtain u v where "w = u @ v" "u \<in> lang ic (Atom c)" "v \<in> lang ic r" by auto
  then show "\<exists>x w'. w = x # w' \<and> in_class ic c x \<and> w' \<in> lang ic r" by auto
next
  assume "\<exists>x w'. w = x # w' \<and> in_class ic c x \<and> w' \<in> lang ic r"
  then obtain x w' where "w = [x] @ w'" "in_class ic c x" "w' \<in> lang ic r" by auto
  then have "w = [x] @ w'" "[x] \<in> lang ic (Atom c)" "w' \<in> lang ic r" by simp_all
  then show "w \<in> lang ic (Seq (Atom c) r)" unfolding lang.simps(3) by blast
qed

lemma lang_Seq_Rep:
  "w \<in> lang ic (Seq (Rep c lo None g) r)
   \<longleftrightarrow> (\<exists>u v. w = u @ v \<and> list_all (in_class ic c) u \<and> lo \<le> length u \<and> v \<in> lang ic r)"
  by auto

lemma lang_Eps: "w \<in> lang ic Eps \<longleftrightarrow> w = []"
  by simp

lemma re_word_Cons: "re_word (c # cs) = Seq (Atom (Lit (cu c))) (re_word cs)"
  by (simp add: re_word_def re_lit_def)

lemma re_word_Nil: "re_word [] = Eps"
  by (simp add: re_word_def)

lemma lang_word: "w \<in> lang True (re_word kw) \<longleftrightarrow> same_ignoring_case w (js kw)"
proof (induction kw arbitrary: w)
  case Nil
  show ?case by (simp add: re_word_Nil same_ignoring_case_def js_def)
next
  case (Cons c cs)
  show ?case
  proof
    assume "w \<in> lang True (re_word (c # cs))"
    then obtain x w' where "w = x # w'" "canonicalize True x = canonicalize True (cu c)"
      "w' \<in> lang True (re_word cs)" by (auto simp: re_word_Cons)
    with Cons [of w'] show "same_ignoring_case w (js (c # cs))"
      by (simp add: same_ignoring_case_def js_def cu_def)
  next
    assume a: "same_ignoring_case w (js (c # cs))"
    then obtain x w' where w: "w = x # w'" by (cases w) (auto simp: same_ignoring_case_def js_def)
    with a have "canonicalize True x = canonicalize True (cu c)" "same_ignoring_case w' (js cs)"
      by (simp_all add: same_ignoring_case_def js_def cu_def)
    with Cons [of w'] w show "w \<in> lang True (re_word (c # cs))"
      by (simp add: re_word_Cons lang_Seq_Atom del: lang.simps)
  qed
qed

lemma lang_digits: "g \<in> lang ic (Rep Digit lo (Some hi) True) \<longleftrightarrow> digits lo hi g"
  by (simp add: digits_def in_class_eta)


subsection \<open>Captures\<close>

lemma ms_caps_set:
  "s' \<in> set (ms ic r s) \<Longrightarrow> n < length (caps s) \<Longrightarrow> must_set n r \<or> caps s ! n \<noteq> None \<Longrightarrow>
   caps s' ! n \<noteq> None"
proof (induction r arbitrary: s s')
  case (Atom c)
  then show ?case by (cases "rest s") (auto simp: advance_def split: if_splits)
next
  case (Rep c lo hi greedy)
  from ms_Rep_elem [OF Rep.prems(1)] obtain k where "s' = advance s k" by blast
  with Rep.prems(3) show ?case by (simp add: advance_def)
next
  case (Seq a b)
  from Seq.prems(1) obtain x where x: "x \<in> set (ms ic a s)" "s' \<in> set (ms ic b x)" by auto
  from ms_sound [OF x(1)] have lx: "length (caps x) = length (caps s)" by blast
  with Seq.prems(2) have nx: "n < length (caps x)" by simp
  show ?case
  proof (cases "must_set n a \<or> caps s ! n \<noteq> None")
    case True
    from Seq.IH(1) [OF x(1) Seq.prems(2) True] have "caps x ! n \<noteq> None" .
    with Seq.IH(2) [OF x(2) nx] show ?thesis by blast
  next
    case False
    with Seq.prems(3) have "must_set n b" by simp
    with Seq.IH(2) [OF x(2) nx] show ?thesis by blast
  qed
next
  case (Alt a b)
  from Alt.prems(1) have "s' \<in> set (ms ic a s) \<or> s' \<in> set (ms ic b s)" by simp
  then show ?case
  proof
    assume "s' \<in> set (ms ic a s)"
    from Alt.IH(1) [OF this Alt.prems(2)] Alt.prems(3) show ?thesis by auto
  next
    assume "s' \<in> set (ms ic b s)"
    from Alt.IH(2) [OF this Alt.prems(2)] Alt.prems(3) show ?thesis by auto
  qed
next
  case (Group k r)
  from Group.prems(1) obtain x where x: "x \<in> set (ms ic r s)"
    "s' = x\<lparr>caps := (caps x)[k := Some (take (pos x - pos s) (rest s))]\<rparr>" by auto
  from ms_sound [OF x(1)] have lx: "length (caps x) = length (caps s)" by blast
  show ?case
  proof (cases "k = n")
    case True
    with x(2) lx Group.prems(2) show ?thesis by simp
  next
    case False
    with Group.prems(3) have "must_set n r \<or> caps s ! n \<noteq> None" by simp
    from Group.IH [OF x(1) Group.prems(2) this] False x(2) show ?thesis by simp
  qed
next
  case (Look r)
  then obtain x xs where x: "ms ic r s = x # xs" "s' = s\<lparr>caps := caps x\<rparr>"
    by (cases "ms ic r s") auto
  then have "x \<in> set (ms ic r s)" by simp
  from Look.IH [OF this Look.prems(2)] Look.prems(3) x(2) show ?case by simp
next
  case Bol
  then show ?case by (cases "pos s = 0") simp_all
next
  case Eol
  then show ?case by (cases "rest s = []") simp_all
next
  case Eps
  then show ?case by simp
qed

lemma ms_caps_keep:
  "s' \<in> set (ms ic r s) \<Longrightarrow> \<not> mentions n r \<Longrightarrow> caps s' ! n = caps s ! n"
proof (induction r arbitrary: s s')
  case (Atom c)
  then show ?case by (cases "rest s") (auto simp: advance_def split: if_splits)
next
  case (Rep c lo hi greedy)
  from ms_Rep_elem [OF Rep.prems(1)] obtain k where "s' = advance s k" by blast
  then show ?case by (simp add: advance_def)
next
  case (Seq a b)
  from Seq.prems(1) obtain x where x: "x \<in> set (ms ic a s)" "s' \<in> set (ms ic b x)" by auto
  from Seq.prems(2) have "\<not> mentions n a" "\<not> mentions n b" by simp_all
  with Seq.IH(1) [OF x(1)] Seq.IH(2) [OF x(2)] show ?case by simp
next
  case (Alt a b)
  from Alt.prems(1) have "s' \<in> set (ms ic a s) \<or> s' \<in> set (ms ic b s)" by simp
  moreover from Alt.prems(2) have "\<not> mentions n a" "\<not> mentions n b" by simp_all
  ultimately show ?case using Alt.IH by blast
next
  case (Group k r)
  from Group.prems(1) obtain x where x: "x \<in> set (ms ic r s)"
    "s' = x\<lparr>caps := (caps x)[k := Some (take (pos x - pos s) (rest s))]\<rparr>" by auto
  from Group.prems(2) have "k \<noteq> n" "\<not> mentions n r" by simp_all
  with Group.IH [OF x(1)] x(2) show ?case by simp
next
  case (Look r)
  then obtain x xs where x: "ms ic r s = x # xs" "s' = s\<lparr>caps := caps x\<rparr>"
    by (cases "ms ic r s") auto
  then have "x \<in> set (ms ic r s)" by simp
  from Look.IH [OF this] Look.prems(2) x(2) show ?case by simp
next
  case Bol
  then show ?case by (cases "pos s = 0") simp_all
next
  case Eol
  then show ?case by (cases "rest s = []") simp_all
next
  case Eps
  then show ?case by simp
qed

lemma group_capture:
  assumes "s' \<in> set (ms ic (Group n r) s)" "n < length (caps s)"
  shows "\<exists>g. caps s' ! n = Some g \<and> g \<in> lang ic r"
proof -
  from assms(1) obtain x where x: "x \<in> set (ms ic r s)"
    "s' = x\<lparr>caps := (caps x)[n := Some (take (pos x - pos s) (rest s))]\<rparr>" by auto
  from ms_sound [OF x(1)] obtain w where w: "rest s = w @ rest x" "pos x = pos s + length w"
    "w \<in> lang ic r" "length (caps x) = length (caps s)" by blast
  from w(1,2) have "take (pos x - pos s) (rest s) = w" by simp
  with x(2) w(3,4) assms(2) show ?thesis by simp
qed

lemma seqs_group_capture:
  assumes "s' \<in> set (ms ic (seqs (xs @ Group n r # ys)) s)" "n < length (caps s)"
    "\<not> mentions n (seqs ys)"
  shows "\<exists>g. caps s' ! n = Some g \<and> g \<in> lang ic r"
proof -
  from assms(1) obtain x where x: "x \<in> set (ms ic (seqs xs) s)"
    "s' \<in> set (ms ic (seqs (Group n r # ys)) x)" unfolding ms_seqs_append_mem by blast
  from x(2) obtain x1 where x1: "x1 \<in> set (ms ic (Group n r) x)" "s' \<in> set (ms ic (seqs ys) x1)"
    by auto
  from ms_sound [OF x(1)] assms(2) have "n < length (caps x)" by auto
  from group_capture [OF x1(1) this] obtain g where "caps x1 ! n = Some g" "g \<in> lang ic r"
    by blast
  with ms_caps_keep [OF x1(2) assms(3)] show ?thesis by simp
qed


subsection \<open>Searching\<close>

lemma match_at_Some:
  "match_at re p xs = Some m \<Longrightarrow>
   \<exists>s' ss. ms (ignoreCase re) (body re) (start_state re p xs) = s' # ss
     \<and> m = \<lparr>index = p, groups = (caps s')[0 := Some (take (pos s' - p) xs)]\<rparr>"
  by (auto simp: match_at_def split: list.splits)

lemma match_at_None:
  "match_at re p xs = None \<longleftrightarrow> ms (ignoreCase re) (body re) (start_state re p xs) = []"
  by (auto simp: match_at_def split: list.splits)

lemma search_Some:
  "search re p xs = Some m \<Longrightarrow>
   \<exists>k \<le> length xs. match_at re (p + k) (drop k xs) = Some m
     \<and> (\<forall>j < k. match_at re (p + j) (drop j xs) = None)"
proof (induction xs arbitrary: p)
  case Nil
  then show ?case by simp
next
  case (Cons x xs)
  show ?case
  proof (cases "match_at re p (x # xs)")
    case (Some m')
    with Cons.prems have "match_at re (p + 0) (drop 0 (x # xs)) = Some m" by simp
    then show ?thesis by (intro exI [of _ 0]) simp
  next
    case None
    with Cons.prems have "search re (Suc p) xs = Some m" by simp
    from Cons.IH [OF this] obtain k where k: "k \<le> length xs"
      "match_at re (Suc p + k) (drop k xs) = Some m"
      "\<forall>j < k. match_at re (Suc p + j) (drop j xs) = None" by blast
    have "\<forall>j < Suc k. match_at re (p + j) (drop j (x # xs)) = None"
    proof (intro allI impI)
      fix j assume "j < Suc k"
      then show "match_at re (p + j) (drop j (x # xs)) = None"
        using None k(3) by (cases j) simp_all
    qed
    with k(1,2) show ?thesis by (intro exI [of _ "Suc k"]) simp
  qed
qed

lemma search_None:
  "search re p xs = None \<Longrightarrow> k \<le> length xs \<Longrightarrow> match_at re (p + k) (drop k xs) = None"
proof (induction xs arbitrary: p k)
  case Nil
  then show ?case by simp
next
  case (Cons x xs)
  from Cons.prems(1) have a: "match_at re p (x # xs) = None" "search re (Suc p) xs = None"
    by (auto split: option.splits)
  show ?case
  proof (cases k)
    case 0
    with a(1) show ?thesis by simp
  next
    case (Suc k')
    with Cons.prems(2) have "k' \<le> length xs" by simp
    from Cons.IH [OF a(2) this] Suc show ?thesis by simp
  qed
qed

lemma search_hit:
  "match_at re p xs = Some m \<Longrightarrow> search re p xs = Some m"
  by (cases xs) simp_all

lemma search_skip:
  assumes "\<forall>j < length pre. match_at re (p + j) (drop j (pre @ ys)) = None"
  shows "search re p (pre @ ys) = search re (p + length pre) ys"
  using assms
proof (induction pre arbitrary: p)
  case Nil
  show ?case by simp
next
  case (Cons a pre)
  from Cons.prems have z: "match_at re p (a # pre @ ys) = None" by force
  have "\<forall>j < length pre. match_at re (Suc p + j) (drop j (pre @ ys)) = None"
  proof (intro allI impI)
    fix j assume "j < length pre"
    then have "Suc j < length (a # pre)" by simp
    with Cons.prems have "match_at re (p + Suc j) (drop (Suc j) ((a # pre) @ ys)) = None"
      by blast
    then show "match_at re (Suc p + j) (drop j (pre @ ys)) = None" by simp
  qed
  from Cons.IH [OF this] z show ?case by simp
qed

lemma match_at_first_fail:
  assumes "body re = Seq (Seq (Atom a) r1) r2" "\<not> in_class (ignoreCase re) a c"
  shows "match_at re p (c # cs) = None"
  using assms by (simp add: match_at_def start_state_def)

lemma search_past:
  assumes "body re = Seq (Seq (Atom a) r1) r2" "list_all (\<lambda>c. \<not> in_class (ignoreCase re) a c) pre"
  shows "search re 0 (pre @ ys) = search re (length pre) ys"
proof -
  have "\<forall>j < length pre. match_at re (0 + j) (drop j (pre @ ys)) = None"
  proof (intro allI impI)
    fix j assume j: "j < length pre"
    then have "drop j (pre @ ys) = pre ! j # drop (Suc j) pre @ ys"
      by (simp add: Cons_nth_drop_Suc)
    moreover from j assms(2) have "\<not> in_class (ignoreCase re) a (pre ! j)"
      by (simp add: list_all_length)
    ultimately show "match_at re (0 + j) (drop j (pre @ ys)) = None"
      using match_at_first_fail [OF assms(1)] by simp
  qed
  from search_skip [OF this] show ?thesis by simp
qed

lemma search_anchored:
  assumes "body re = Seq Bol r" "0 < p"
  shows "search re p xs = None"
  using assms(2)
proof (induction xs arbitrary: p)
  case Nil
  then show ?case by (simp add: match_at_def start_state_def assms(1))
next
  case (Cons x xs)
  then have "match_at re p (x # xs) = None" by (simp add: match_at_def start_state_def assms(1))
  moreover have "search re (Suc p) xs = None" by (rule Cons.IH) simp
  ultimately show ?case by simp
qed

lemma match_anchored:
  assumes "body re = Seq Bol r"
  shows "match t re \<noteq> None \<longleftrightarrow> ms (ignoreCase re) r (start_state re 0 t) \<noteq> []"
proof -
  have m: "match_at re 0 t = None \<longleftrightarrow> ms (ignoreCase re) r (start_state re 0 t) = []"
    by (simp add: match_at_None assms) (simp add: start_state_def)
  show ?thesis
  proof (cases t)
    case Nil
    with m show ?thesis by (simp add: match_def)
  next
    case (Cons x xs)
    have "search re (Suc 0) xs = None" by (rule search_anchored [OF assms]) simp
    with Cons m show ?thesis by (auto simp: match_def split: option.splits)
  qed
qed

lemma match_anchored_plain:
  assumes "body re = Seq Bol r" "plain r"
  shows "match t re \<noteq> None \<longleftrightarrow> (\<exists>w z. t = w @ z \<and> w \<in> lang (ignoreCase re) r)"
proof
  assume "match t re \<noteq> None"
  then have "ms (ignoreCase re) r (start_state re 0 t) \<noteq> []"
    using match_anchored [OF assms(1)] by blast
  then obtain s' where "s' \<in> set (ms (ignoreCase re) r (start_state re 0 t))"
    by (cases "ms (ignoreCase re) r (start_state re 0 t)") auto
  from ms_sound [OF this] show "\<exists>w z. t = w @ z \<and> w \<in> lang (ignoreCase re) r"
    by (auto simp: start_state_def)
next
  assume "\<exists>w z. t = w @ z \<and> w \<in> lang (ignoreCase re) r"
  then obtain w z where wz: "t = w @ z" "w \<in> lang (ignoreCase re) r" by blast
  have "rest (start_state re 0 t) = w @ z" using wz(1) by (simp add: start_state_def)
  from ms_complete [OF assms(2) wz(2) this]
  have "ms (ignoreCase re) r (start_state re 0 t) \<noteq> []" by auto
  then show "match t re \<noteq> None" using match_anchored [OF assms(1)] by blast
qed

lemma match_Some_text:
  assumes "match doc re = Some m"
  shows "\<exists>pre w post. doc = pre @ w @ post \<and> index m = length pre \<and> at m 0 = Some w
           \<and> w \<in> lang (ignoreCase re) (body re)"
proof -
  from assms search_Some [of re 0 doc m] obtain k where k: "k \<le> length doc"
    "match_at re k (drop k doc) = Some m" by (auto simp: match_def)
  let ?s = "start_state re k (drop k doc)"
  from match_at_Some [OF k(2)] obtain s' ss where s':
    "ms (ignoreCase re) (body re) ?s = s' # ss"
    "m = \<lparr>index = k, groups = (caps s')[0 := Some (take (pos s' - k) (drop k doc))]\<rparr>"
    by blast
  from s'(1) have "s' \<in> set (ms (ignoreCase re) (body re) ?s)" by simp
  from ms_sound [OF this] obtain w where w: "rest ?s = w @ rest s'"
    "pos s' = pos ?s + length w" "w \<in> lang (ignoreCase re) (body re)"
    "length (caps s') = length (caps ?s)" by blast
  from w(1) have d: "drop k doc = w @ rest s'" by (simp add: start_state_def)
  from w(2) have "pos s' - k = length w" by (simp add: start_state_def)
  with d have t: "take (pos s' - k) (drop k doc) = w" by simp
  have "doc = take k doc @ w @ rest s'" using d by (metis append_take_drop_id)
  moreover have "index m = length (take k doc)" using s'(2) k(1) by simp
  moreover have "at m 0 = Some w" using s'(2) t w(4) by (simp add: at_def start_state_def)
  ultimately show ?thesis using w(3) by blast
qed

lemma match_Some_group:
  assumes "match text re = Some m" "must_set n (body re)" "0 < n" "n \<le> ngroups re"
  shows "\<exists>g. at m n = Some g"
proof -
  from assms(1) search_Some [of re 0 _ m] obtain k where
    "match_at re k (drop k text) = Some m" by (auto simp: match_def)
  from match_at_Some [OF this] obtain s' ss where s':
    "ms (ignoreCase re) (body re) (start_state re k (drop k text)) = s' # ss"
    "m = \<lparr>index = k, groups = (caps s')[0 := Some (take (pos s' - k) (drop k text))]\<rparr>"
    by blast
  let ?s = "start_state re k (drop k text)"
  from s'(1) have mem: "s' \<in> set (ms (ignoreCase re) (body re) ?s)" by simp
  have n: "n < length (caps ?s)" using assms(4) by (simp add: start_state_def)
  from ms_sound [OF mem] have l: "length (caps s') = length (caps ?s)" by blast
  from ms_caps_set [OF mem n] assms(2) have "caps s' ! n \<noteq> None" by blast
  with s'(2) l n assms(3) show ?thesis by (auto simp: at_def)
qed

lemma match_complete:
  assumes "plain (body re)" "w \<in> lang (ignoreCase re) (body re)"
  shows "match (pre @ w @ post) re \<noteq> None"
proof
  assume "match (pre @ w @ post) re = None"
  then have "search re 0 (pre @ w @ post) = None" by (simp add: match_def)
  from search_None [OF this, of "length pre"]
  have "match_at re (length pre) (w @ post) = None" by simp
  then have e: "ms (ignoreCase re) (body re) (start_state re (length pre) (w @ post)) = []"
    by (simp add: match_at_None)
  have "rest (start_state re (length pre) (w @ post)) = w @ post"
    by (simp add: start_state_def)
  from ms_complete [OF assms this] e show False by simp
qed

lemma match_iff_matches_in:
  assumes "plain (body re)"
  shows "match doc re \<noteq> None \<longleftrightarrow> matches_in re doc"
proof
  assume "match doc re \<noteq> None"
  then obtain m where "match doc re = Some m" by blast
  from match_Some_text [OF this] show "matches_in re doc" unfolding matches_in_def by blast
next
  assume "matches_in re doc"
  then obtain pre w post where "doc = pre @ w @ post" "w \<in> lang (ignoreCase re) (body re)"
    unfolding matches_in_def by blast
  with match_complete [OF assms, of w pre post] show "match doc re \<noteq> None" by simp
qed

lemma match_groups_length:
  assumes "match doc re = Some m"
  shows "length (groups m) = Suc (ngroups re)"
proof -
  from assms search_Some [of re 0 doc m] obtain k where
    "match_at re k (drop k doc) = Some m" by (auto simp: match_def)
  from match_at_Some [OF this] obtain s' ss where s':
    "ms (ignoreCase re) (body re) (start_state re k (drop k doc)) = s' # ss"
    "m = \<lparr>index = k, groups = (caps s')[0 := Some (take (pos s' - k) (drop k doc))]\<rparr>"
    by blast
  from s'(1) have "s' \<in> set (ms (ignoreCase re) (body re) (start_state re k (drop k doc)))"
    by simp
  from ms_sound [OF this] s'(2) show ?thesis by (auto simp: start_state_def)
qed

lemma match_group_lang:
  assumes "match doc re = Some m" "body re = seqs (xs @ Group n r # ys)" "0 < n"
    "n \<le> ngroups re" "\<not> mentions n (seqs ys)"
  shows "\<exists>g. at m n = Some g \<and> g \<in> lang (ignoreCase re) r"
proof -
  from assms(1) search_Some [of re 0 doc m] obtain k where
    k: "match_at re k (drop k doc) = Some m" by (auto simp: match_def)
  let ?s = "start_state re k (drop k doc)"
  from match_at_Some [OF k] obtain s' ss where s':
    "ms (ignoreCase re) (body re) ?s = s' # ss"
    "m = \<lparr>index = k, groups = (caps s')[0 := Some (take (pos s' - k) (drop k doc))]\<rparr>"
    by blast
  from s'(1) have mem: "s' \<in> set (ms (ignoreCase re) (seqs (xs @ Group n r # ys)) ?s)"
    using assms(2) by simp
  have n: "n < length (caps ?s)" using assms(4) by (simp add: start_state_def)
  from ms_sound [OF mem] have l: "length (caps s') = length (caps ?s)" by blast
  from seqs_group_capture [OF mem n assms(5)] obtain g where
    "caps s' ! n = Some g" "g \<in> lang (ignoreCase re) r" by blast
  with s'(2) l n assms(3) show ?thesis by (auto simp: at_def)
qed


subsection \<open>The first match\<close>

lemma advance_advance: "advance (advance s a) b = advance s (a + b)"
  by (simp add: advance_def add.assoc add.commute)

lemma advance_0: "advance s 0 = s"
  by (simp add: advance_def)

lemma ms_word:
  "w \<in> lang ic (re_word str) \<Longrightarrow> rest s = w @ z \<Longrightarrow> ms ic (re_word str) s = [advance s (length w)]"
proof (induction str arbitrary: s w)
  case Nil
  then show ?case by (simp add: re_word_Nil advance_0)
next
  case (Cons c cs)
  from Cons.prems(1) obtain x w' where w: "w = x # w'" "in_class ic (Lit (cu c)) x"
    "w' \<in> lang ic (re_word cs)" by (auto simp: re_word_Cons)
  from Cons.prems(2) w(1) have r: "rest s = x # w' @ z" by simp
  then have "rest (advance s 1) = w' @ z" by (simp add: advance_def)
  from Cons.IH [OF w(3) this] have "ms ic (re_word cs) (advance s 1) = [advance s (Suc (length w'))]"
    by (simp add: advance_advance)
  with r w(1,2) show ?case by (simp add: re_word_Cons)
qed

lemma ms_Seq_hd:
  "ms ic a s = x # xs \<Longrightarrow> ms ic b x = y # ys \<Longrightarrow> \<exists>zs. ms ic (Seq a b) s = y # zs"
  by simp

lemma ms_star_hd:
  assumes "list_all (in_class ic c) xs" "rest s = xs @ y # ys" "\<not> in_class ic c y"
  shows "\<exists>zs. ms ic (re_star c) s = advance s (length xs) # zs"
proof -
  from assms(1) have "takeWhile (in_class ic c) (xs @ y # ys) = xs @ takeWhile (in_class ic c) (y # ys)"
    by (intro takeWhile_append2) (simp add: list_all_iff)
  with assms(3) have "length (takeWhile (in_class ic c) (rest s)) = length xs"
    by (simp add: assms(2))
  then show ?thesis by (simp add: re_star_def Let_def)
qed

lemma ms_opt_take:
  "rest s = y # ys \<Longrightarrow> in_class ic c y \<Longrightarrow> \<exists>zs. ms ic (re_opt c) s = advance s 1 # zs"
  by (simp add: re_opt_def Let_def)

lemma ms_opt_skip:
  "rest s = y # ys \<Longrightarrow> \<not> in_class ic c y \<Longrightarrow> \<exists>zs. ms ic (re_opt c) s = s # zs"
  by (simp add: re_opt_def Let_def advance_0)

lemma concat_map_hd:
  "concat (map f xs) = y # ys \<Longrightarrow> \<exists>x \<in> set xs. \<exists>zs. f x = y # zs"
proof (induction xs)
  case Nil
  then show ?case by simp
next
  case (Cons a xs)
  show ?case
  proof (cases "f a")
    case Nil
    with Cons show ?thesis by auto
  next
    case (Cons b bs)
    with Cons.prems show ?thesis by auto
  qed
qed

lemma seqs_last_hd:
  "ms ic (seqs (rs @ [r])) s = s' # ss \<Longrightarrow>
   \<exists>x \<in> set (ms ic (seqs rs) s). \<exists>zs. ms ic r x = s' # zs"
proof (induction rs arbitrary: s ss)
  case Nil
  then have "ms ic r s = s' # ss" by (simp only: append_Nil ms_seqs_single)
  then show ?case by simp
next
  case (Cons a rs)
  from Cons.prems have "concat (map (ms ic (seqs (rs @ [r]))) (ms ic a s)) = s' # ss" by simp
  from concat_map_hd [OF this] obtain x1 zs1 where x1: "x1 \<in> set (ms ic a s)"
    "ms ic (seqs (rs @ [r])) x1 = s' # zs1" by blast
  from Cons.IH [OF x1(2)] obtain x zs where x: "x \<in> set (ms ic (seqs rs) x1)"
    "ms ic r x = s' # zs" by blast
  from x1(1) x(1) have "x \<in> set (ms ic (seqs (a # rs)) s)" by auto
  with x(2) show ?case by blast
qed

lemma ms_Rep_greedy_hd:
  assumes "ms ic (Rep c lo None True) s = y # ys"
  shows "lo \<le> length (takeWhile (in_class ic c) (rest s))
         \<and> y = advance s (length (takeWhile (in_class ic c) (rest s)))"
proof -
  define n where "n = length (takeWhile (in_class ic c) (rest s))"
  have e: "ms ic (Rep c lo None True) s
           = (if n < lo then [] else map (advance s) (rev [lo ..< Suc n]))"
    by (simp add: n_def Let_def del: upt_Suc)
  with assms have l: "lo \<le> n" by (cases "n < lo") simp_all
  then have "rev [lo ..< Suc n] = n # rev [lo ..< n]" by simp
  with e l assms have "y = advance s n" by (simp del: upt_Suc ms.simps)
  with l show ?thesis by (simp add: n_def)
qed

lemma match_last_group:
  assumes "body re = seqs (rs @ [Group n (re_plus c)])" "match doc re = Some m"
    "0 < n" "n \<le> ngroups re"
  shows "\<exists>pre kw g post. doc = pre @ kw @ g @ post \<and> kw \<in> lang (ignoreCase re) (seqs rs)
           \<and> at m n = Some g \<and> g \<noteq> [] \<and> list_all (in_class (ignoreCase re) c) g
           \<and> (post = [] \<or> \<not> in_class (ignoreCase re) c (hd post))"
proof -
  let ?ic = "ignoreCase re"
  let ?P = "in_class ?ic c"
  from assms(2) search_Some [of re 0 doc m] obtain k where k: "k \<le> length doc"
    "match_at re k (drop k doc) = Some m" by (auto simp: match_def)
  let ?s = "start_state re k (drop k doc)"
  from match_at_Some [OF k(2)] obtain s' ss where s':
    "ms ?ic (body re) ?s = s' # ss"
    "m = \<lparr>index = k, groups = (caps s')[0 := Some (take (pos s' - k) (drop k doc))]\<rparr>"
    by blast
  from s'(1) assms(1) have "ms ?ic (seqs (rs @ [Group n (re_plus c)])) ?s = s' # ss" by simp
  from seqs_last_hd [OF this] obtain x zs where x: "x \<in> set (ms ?ic (seqs rs) ?s)"
    "ms ?ic (Group n (re_plus c)) x = s' # zs" by blast
  from ms_sound [OF x(1)] obtain kw where kw: "rest ?s = kw @ rest x" "kw \<in> lang ?ic (seqs rs)"
    "length (caps x) = length (caps ?s)" by blast
  let ?N = "length (takeWhile ?P (rest x))"
  from x(2) obtain y ys where y: "ms ?ic (re_plus c) x = y # ys"
    "s' = y\<lparr>caps := (caps y)[n := Some (take (pos y - pos x) (rest x))]\<rparr>"
    by (cases "ms ?ic (re_plus c) x") simp_all
  from ms_Rep_greedy_hd [OF y(1) [unfolded re_plus_def]] have N: "1 \<le> ?N" "y = advance x ?N"
    by simp_all
  with y(2) have "s' = (advance x ?N)\<lparr>caps := (caps (advance x ?N))
      [n := Some (take (pos (advance x ?N) - pos x) (rest x))]\<rparr>" by simp
  then have c: "caps s' = (caps x)[n := Some (takeWhile ?P (rest x))]"
    and r: "rest s' = dropWhile ?P (rest x)"
    by (simp_all add: advance_def takeWhile_eq_take [symmetric] dropWhile_eq_drop [symmetric])
  let ?g = "takeWhile ?P (rest x)"
  let ?post = "dropWhile ?P (rest x)"
  have "drop k doc = kw @ ?g @ ?post" using kw(1) by (simp add: start_state_def)
  then have "doc = take k doc @ kw @ ?g @ ?post" by (metis append_take_drop_id)
  moreover have "n < length (caps x)" using kw(3) assms(4) by (simp add: start_state_def)
  then have "at m n = Some ?g" using s'(2) c assms(3) by (simp add: at_def)
  moreover have "?g \<noteq> []" using N by auto
  moreover have "list_all ?P ?g" by (simp add: list_all_iff) (meson set_takeWhileD)
  moreover have "?post = [] \<or> \<not> ?P (hd ?post)" using hd_dropWhile by blast
  ultimately show ?thesis using kw(2) by blast
qed


subsection \<open>Evaluating a pattern on a given text\<close>

lemmas is_space_numeral = is_space_def [of "numeral n" for n]

lemmas regex_eval =
  match_at_def start_state_def js_def re_word_def re_lit_def re_star_def re_plus_def re_opt_def
  re_lazy_def re_times_def re_between_def cu_def advance_def canonicalize_def is_lower_def
  is_digit_def is_space_numeral Let_def

lemma replicate_numeral: "replicate (numeral n) x = x # replicate (pred_numeral n) x"
  by (simp add: numeral_eq_Suc)

lemma first_split_unique:
  "x \<notin> set xs \<Longrightarrow> x \<notin> set xs' \<Longrightarrow> xs @ x # ys = xs' @ x # ys' \<Longrightarrow> xs = xs'"
proof (induction xs arbitrary: xs')
  case Nil
  then show ?case by (cases xs') auto
next
  case (Cons a xs)
  then show ?case by (cases xs') auto
qed


subsection \<open>The title and author patterns\<close>

lemma number_pattern:
  "match t title_number_re \<noteq> None \<longleftrightarrow> number_start t"
proof -
  let ?r = "seqs [re_plus Digit, re_lit CHR ''.'']"
  have b: "body title_number_re = Seq Bol ?r" by (simp add: title_number_re_def)
  have p: "plain ?r" by (simp add: re_plus_def re_lit_def)
  have "(\<exists>w z. t = w @ z \<and> w \<in> lang False ?r) \<longleftrightarrow> number_start t"
  proof
    assume "\<exists>w z. t = w @ z \<and> w \<in> lang False ?r"
    then obtain w z where wz: "t = w @ z" "w \<in> lang False ?r" by blast
    from wz(2) obtain ds x where "w = ds @ [x]" "list_all is_digit ds" "1 \<le> length ds"
      "x = cu CHR ''.''"
      by (auto simp: re_plus_def re_lit_def in_class_eta canonicalize_def)
    with wz(1) show "number_start t" unfolding number_start_def by auto
  next
    assume "number_start t"
    then obtain ds z where d: "t = ds @ cu CHR ''.'' # z" "ds \<noteq> []" "list_all is_digit ds"
      unfolding number_start_def by blast
    have "[cu CHR ''.''] \<in> lang False (seqs [re_lit CHR ''.''])" by (simp add: re_lit_def)
    moreover have "ds \<in> lang False (seqs [re_plus Digit])"
      using d(2,3) by (cases ds) (simp_all add: re_plus_def in_class_eta)
    ultimately have "ds @ [cu CHR ''.''] \<in> lang False (seqs ([re_plus Digit] @ [re_lit CHR ''.'']))"
      by (intro lang_seqs_appendI)
    with d(1) show "\<exists>w z. t = w @ z \<and> w \<in> lang False ?r" by (intro exI [of _ "ds @ [cu CHR ''.'']"] exI [of _ z]) simp
  qed
  with match_anchored_plain [OF b p, of t] show ?thesis by (simp add: title_number_re_def)
qed

lemma keyword_lang:
  "w \<in> lang True (seqs [Group 1 (Alt (re_word a) (Alt (re_word b) (re_word c)))])
   \<longleftrightarrow> same_ignoring_case w (js a) \<or> same_ignoring_case w (js b) \<or> same_ignoring_case w (js c)"
proof -
  have "w \<in> lang True (seqs [Group 1 (Alt (re_word a) (Alt (re_word b) (re_word c)))])
        \<longleftrightarrow> w \<in> lang True (re_word a) \<or> w \<in> lang True (re_word b) \<or> w \<in> lang True (re_word c)"
    by auto
  then show ?thesis by (simp only: lang_word)
qed

lemma title_keyword_pattern:
  "match t title_keyword_re \<noteq> None \<longleftrightarrow> keyword_start t"
proof -
  let ?r = "seqs [Group 1 (Alt (re_word ''abstract'')
                          (Alt (re_word ''introduction'') (re_word ''conclusion'')))]"
  have b: "body title_keyword_re = Seq Bol ?r" by (simp add: title_keyword_re_def)
  have p: "plain ?r" by (simp add: re_word_def re_lit_def)
  have ic: "ignoreCase title_keyword_re = True" by (simp add: title_keyword_re_def)
  from match_anchored_plain [OF b p, of t]
  have "match t title_keyword_re \<noteq> None \<longleftrightarrow> (\<exists>w z. t = w @ z \<and> w \<in> lang True ?r)"
    by (simp only: ic)
  then show ?thesis by (simp only: keyword_lang keyword_start_def)
qed

lemma author_keyword_pattern:
  "match t author_keyword_re \<noteq> None \<longleftrightarrow> keyword_start t"
proof -
  let ?r = "seqs [Group 1 (Alt (re_word ''Abstract'')
                          (Alt (re_word ''Introduction'') (re_word ''Conclusion'')))]"
  have b: "body author_keyword_re = Seq Bol ?r" by (simp add: author_keyword_re_def)
  have p: "plain ?r" by (simp add: re_word_def re_lit_def)
  have c: "same_ignoring_case w (js ''Abstract'') = same_ignoring_case w (js ''abstract'')"
    "same_ignoring_case w (js ''Introduction'') = same_ignoring_case w (js ''introduction'')"
    "same_ignoring_case w (js ''Conclusion'') = same_ignoring_case w (js ''conclusion'')" for w
    by (simp_all add: same_ignoring_case_def js_def canonicalize_def is_lower_def)
  have ic: "ignoreCase author_keyword_re = True" by (simp add: author_keyword_re_def)
  from match_anchored_plain [OF b p, of t]
  have "match t author_keyword_re \<noteq> None \<longleftrightarrow> (\<exists>w z. t = w @ z \<and> w \<in> lang True ?r)"
    by (simp only: ic)
  then show ?thesis by (simp only: keyword_lang keyword_start_def c)
qed

lemma capitalized_lang:
  "w \<in> lang False (seqs [Atom (Range (cu CHR ''A'') (cu CHR ''Z'')),
                           re_plus (Range (cu CHR ''a'') (cu CHR ''z''))])
   \<longleftrightarrow> capitalized w"
proof -
  have "w \<in> lang False (seqs [Atom (Range (cu CHR ''A'') (cu CHR ''Z'')),
                              re_plus (Range (cu CHR ''a'') (cu CHR ''z''))])
        \<longleftrightarrow> (\<exists>x w'. w = x # w' \<and> is_upper x \<and> list_all is_lower w' \<and> 1 \<le> length w')"
    unfolding seqs.simps lang_Seq_Atom re_plus_def lang_Seq_Rep lang_Eps
    by (simp add: in_class_upper in_class_lower del: in_class.simps)
  also have "\<dots> \<longleftrightarrow> capitalized w"
    unfolding capitalized_def by (auto simp: Suc_le_eq)
  finally show ?thesis .
qed

lemma spaces_lang:
  "w \<in> lang False (seqs [re_plus Space]) \<longleftrightarrow> w \<noteq> [] \<and> list_all is_space w"
  by (cases w) (auto simp: re_plus_def in_class_eta)

lemma name_pattern:
  "match t author_name_re \<noteq> None \<longleftrightarrow> name_start t"
proof -
  let ?cap = "[Atom (Range (cu CHR ''A'') (cu CHR ''Z'')),
               re_plus (Range (cu CHR ''a'') (cu CHR ''z''))]"
  let ?r = "seqs (?cap @ [re_plus Space] @ ?cap)"
  have b: "body author_name_re = Seq Bol ?r" by (simp add: author_name_re_def)
  have p: "plain ?r" by (simp add: re_plus_def)
  have ic: "ignoreCase author_name_re = False" by (simp add: author_name_re_def)
  have l: "w \<in> lang False ?r \<longleftrightarrow>
      (\<exists>w1 sp w2. w = w1 @ sp @ w2 \<and> capitalized w1 \<and> sp \<noteq> [] \<and> list_all is_space sp
         \<and> capitalized w2)" for w
    unfolding lang_seqs_append by (simp only: capitalized_lang spaces_lang) blast
  from match_anchored_plain [OF b p, of t]
  have "match t author_name_re \<noteq> None \<longleftrightarrow> (\<exists>w z. t = w @ z \<and> w \<in> lang False ?r)"
    by (simp only: ic)
  also have "\<dots> \<longleftrightarrow> name_start t"
    unfolding l name_start_def by (metis append.assoc)
  finally show ?thesis .
qed

lemma upper_line_matches:
  assumes "t \<noteq> []" "list_all (\<lambda>c. is_upper c \<or> is_space c) t"
  shows "match t title_upper_re \<noteq> None"
proof -
  let ?C = "Union (Range (cu CHR ''A'') (cu CHR ''Z'')) Space"
  let ?s = "start_state title_upper_re 0 t"
  have cls: "in_class False ?C = (\<lambda>c. is_upper c \<or> is_space c)"
    by (rule ext) (simp add: is_upper_def cu_def canonicalize_def)
  have "t \<in> lang False (re_plus ?C)"
    using assms by (cases t) (simp_all add: re_plus_def cls del: in_class.simps)
  moreover have "plain (re_plus ?C)" by (simp add: re_plus_def)
  moreover have "rest ?s = t @ []" by (simp add: start_state_def)
  ultimately obtain s1 where s1: "s1 \<in> set (ms False (re_plus ?C) ?s)" "rest s1 = []"
    using ms_complete by blast
  have "s1 \<in> set (ms False (seqs [Eol]) s1)" using s1(2) by simp
  with s1(1) have "s1 \<in> set (ms False (seqs [re_plus ?C, Eol]) ?s)"
    unfolding seqs.simps by (rule ms_Seq_mem)
  moreover have "?s \<in> set (ms False Bol ?s)" by (simp add: start_state_def)
  ultimately have "s1 \<in> set (ms False (seqs [Bol, re_plus ?C, Eol]) ?s)"
    unfolding seqs.simps by (rule ms_Seq_mem [rotated])
  then have "ms (ignoreCase title_upper_re) (body title_upper_re) ?s \<noteq> []"
    by (auto simp: title_upper_re_def)
  then have "match_at title_upper_re 0 t \<noteq> None" by (simp add: match_at_None)
  then obtain m where "match_at title_upper_re 0 t = Some m" by blast
  from search_hit [OF this] show ?thesis by (simp add: match_def)
qed

lemma upper_pattern:
  "match t title_upper_re \<noteq> None \<longleftrightarrow> ascii_upper_only t"
proof
  assume "ascii_upper_only t"
  then show "match t title_upper_re \<noteq> None"
    unfolding ascii_upper_only_def using upper_line_matches by blast
next
  assume m: "match t title_upper_re \<noteq> None"
  let ?C = "Union (Range (cu CHR ''A'') (cu CHR ''Z'')) Space"
  have b: "body title_upper_re = Seq Bol (seqs ([re_plus ?C] @ [Eol]))"
    by (simp add: title_upper_re_def)
  let ?s = "start_state title_upper_re 0 t"
  from m match_anchored [OF b, of t] have "ms False (seqs ([re_plus ?C] @ [Eol])) ?s \<noteq> []"
    by (simp add: title_upper_re_def)
  then obtain s' where "s' \<in> set (ms False (seqs ([re_plus ?C] @ [Eol])) ?s)"
    by (cases "ms False (seqs ([re_plus ?C] @ [Eol])) ?s") auto
  then obtain x where x: "x \<in> set (ms False (seqs [re_plus ?C]) ?s)"
    "s' \<in> set (ms False (seqs [Eol]) x)" unfolding ms_seqs_append_mem by blast
  from x(2) have e: "rest x = []" by (cases "rest x = []") simp_all
  from ms_sound [OF x(1)] obtain w where "rest ?s = w @ rest x"
    "w \<in> lang False (seqs [re_plus ?C])" by blast
  with e have "t \<in> lang False (seqs [re_plus ?C])" by (simp add: start_state_def)
  then have "list_all (in_class False ?C) t" "1 \<le> length t" by (simp_all add: re_plus_def)
  moreover have "in_class False ?C = (\<lambda>c. is_upper c \<or> is_space c)"
    by (rule ext) (simp add: is_upper_def cu_def canonicalize_def)
  ultimately show "ascii_upper_only t" unfolding ascii_upper_only_def by auto
qed

lemma title_line_rules: "title_line t \<longleftrightarrow> acceptable_title t"
  unfolding title_line_def acceptable_title_def
  using number_pattern [of t] title_keyword_pattern [of t] upper_pattern [of t] by auto

lemma author_line_rules: "author_line t \<longleftrightarrow> qualifies t"
  unfolding author_line_def qualifies_def
  using name_pattern [of t] author_keyword_pattern [of t] by auto

subsection \<open>The loops\<close>

lemma title_loop_find: "title_loop ls = List.find acceptable_title (map trim ls)"
  by (induction ls) (simp_all add: Let_def title_line_rules [symmetric] title_line_def)

lemma authors_loop_filter:
  "authors_loop ls acc = acc @ filter qualifies (map trim ls)"
  by (induction ls arbitrary: acc)
     (simp_all add: Let_def author_line_rules [symmetric] author_line_def)

lemma title_loop_Some:
  "title_loop ls = Some t \<Longrightarrow> t \<in> set (map trim ls) \<and> acceptable_title t"
  unfolding title_loop_find by (auto simp: find_Some_iff)

lemma extractTitle_Some:
  "extractTitle text = Some t \<Longrightarrow> t \<in> set (normalized_lines 10 text) \<and> acceptable_title t"
  unfolding extractTitle_def normalized_lines_def by (rule title_loop_Some)

subsection \<open>The abstract pattern\<close>

lemma abstract_group:
  assumes "match text abstract_re = Some m"
  shows "\<exists>g. at m 1 = Some g"
  by (rule match_Some_group [OF assms])
     (simp_all add: abstract_re_def re_word_def re_lit_def re_star_def re_opt_def re_lazy_def)


subsection \<open>The DOI patterns\<close>

lemma label_tail_hd:
  assumes "list_all is_space sp1" "list_all (in_class True (Lit (cu CHR '':''))) col"
    "length col \<le> 1" "list_all is_space sp2" "\<not> is_space x" "x \<noteq> cu CHR '':''"
    "rest s = sp1 @ col @ sp2 @ x # v"
  shows "\<exists>zs. ms True (seqs [re_star Space, re_opt (Lit (cu CHR '':'')), re_star Space]) s
            = advance s (length (sp1 @ col @ sp2)) # zs"
proof (cases col)
  case Nil
  let ?s2 = "advance s (length (sp1 @ sp2))"
  have "list_all (in_class True Space) (sp1 @ sp2)" using assms(1,4) by (simp add: in_class_eta)
  moreover have "rest s = (sp1 @ sp2) @ x # v" using assms(7) Nil by simp
  moreover have "\<not> in_class True Space x" using assms(5) by simp
  ultimately obtain z1 where z1: "ms True (re_star Space) s = ?s2 # z1"
    using ms_star_hd by blast
  have r2: "rest ?s2 = x # v" using assms(7) Nil by (simp add: advance_def)
  have "\<not> in_class True (Lit (cu CHR '':'')) x" using assms(6) by (simp add: colon_class del: in_class.simps)
  from ms_opt_skip [OF r2 this] obtain z2 where
    z2: "ms True (re_opt (Lit (cu CHR '':''))) ?s2 = ?s2 # z2" by blast
  have "list_all (in_class True Space) []" by simp
  moreover have "rest ?s2 = [] @ x # v" using r2 by simp
  moreover have "\<not> in_class True Space x" using assms(5) by simp
  ultimately obtain z3 where z3: "ms True (re_star Space) ?s2 = advance ?s2 (length ([] :: jsstring)) # z3"
    using ms_star_hd by blast
  then have z3': "ms True (seqs [re_star Space]) ?s2 = ?s2 # z3"
    by (simp only: ms_seqs_single advance_0 list.size)
  from ms_Seq_hd [OF z2 z3'] obtain z4 where
    "ms True (seqs [re_opt (Lit (cu CHR '':'')), re_star Space]) ?s2 = ?s2 # z4" by auto
  from ms_Seq_hd [OF z1 this] Nil show ?thesis by auto
next
  case (Cons c cs)
  with assms(2,3) have col: "col = [cu CHR '':'']" by (simp add: colon_class del: in_class.simps)
  let ?s2 = "advance s (length sp1)"
  let ?s3 = "advance ?s2 1"
  let ?s4 = "advance ?s3 (length sp2)"
  have n: "\<not> in_class True Space (cu CHR '':'')" by (simp add: cu_def is_space_def)
  have "list_all (in_class True Space) sp1" using assms(1) by (simp add: in_class_eta)
  moreover have r1: "rest s = sp1 @ cu CHR '':'' # sp2 @ x # v" using assms(7) col by simp
  ultimately obtain z1 where z1: "ms True (re_star Space) s = ?s2 # z1"
    using ms_star_hd n by blast
  have r2: "rest ?s2 = cu CHR '':'' # sp2 @ x # v" using r1 by (simp add: advance_def)
  have "in_class True (Lit (cu CHR '':'')) (cu CHR '':'')" by (simp add: colon_class del: in_class.simps)
  from ms_opt_take [OF r2 this] obtain z2 where
    z2: "ms True (re_opt (Lit (cu CHR '':''))) ?s2 = ?s3 # z2" by blast
  have r3: "rest ?s3 = sp2 @ x # v" using r2 by (simp add: advance_def)
  have "list_all (in_class True Space) sp2" using assms(4) by (simp add: in_class_eta)
  moreover have "\<not> in_class True Space x" using assms(5) by simp
  ultimately obtain z3 where z3: "ms True (re_star Space) ?s3 = ?s4 # z3"
    using ms_star_hd r3 by blast
  then have z3': "ms True (seqs [re_star Space]) ?s3 = ?s4 # z3"
    by (simp only: ms_seqs_single)
  from ms_Seq_hd [OF z2 z3'] obtain z4 where
    "ms True (seqs [re_opt (Lit (cu CHR '':'')), re_star Space]) ?s2 = ?s4 # z4" by auto
  from ms_Seq_hd [OF z1 this] obtain z5 where
    "ms True (seqs [re_star Space, re_opt (Lit (cu CHR '':'')), re_star Space]) s = ?s4 # z5"
    by auto
  moreover have "?s4 = advance s (length (sp1 @ col @ sp2))"
    using col by (simp add: advance_advance)
  ultimately show ?thesis by simp
qed

lemma doi_token_shaped:
  assumes "d \<in> lang True (seqs doi_token)"
  shows "doi_shaped d"
proof -
  from assms obtain c1 c0 cd ds cs ns where d: "d = c1 # c0 # cd # ds @ cs # ns"
    "in_class True (Lit (cu CHR ''1'')) c1" "in_class True (Lit (cu CHR ''0'')) c0"
    "in_class True (Lit (cu CHR ''.'')) cd" "list_all (in_class True Digit) ds" "1 \<le> length ds"
    "in_class True (Lit (cu CHR ''/'')) cs" "list_all (in_class True (Neg Space)) ns"
    "1 \<le> length ns"
    by (auto simp: doi_token_def re_word_Cons re_word_Nil re_lit_def re_plus_def
             simp del: in_class.simps)
  from d(2,3,4,7) have c: "c1 = cu CHR ''1''" "c0 = cu CHR ''0''" "cd = cu CHR ''.''"
    "cs = cu CHR ''/''"
    by (simp_all only: digit1_class digit0_class dot_class slash_class)
  have "d = js ''10.'' @ ds @ js ''/'' @ ns" using d(1) c by (simp add: js_def cu_def)
  moreover have "ds \<noteq> []" "ns \<noteq> []" using d(6,9) by auto
  moreover have "list_all is_digit ds" using d(5) by (simp add: in_class_eta)
  moreover have "list_all (\<lambda>c. \<not> is_space c) ns" using d(8) by (simp add: in_class_eta)
  ultimately show ?thesis unfolding doi_shaped_def by blast
qed

lemma doi_shaped_token:
  assumes "doi_shaped d"
  shows "d \<in> lang True (seqs doi_token)"
proof -
  from assms obtain ds ns where d: "d = js ''10.'' @ ds @ js ''/'' @ ns" "ds \<noteq> []"
    "list_all is_digit ds" "ns \<noteq> []" "list_all (\<lambda>c. \<not> is_space c) ns"
    unfolding doi_shaped_def by blast
  have n: "ns \<in> lang True (seqs [re_plus (Neg Space)])"
    using d(4,5) by (cases ns) (simp_all add: re_plus_def in_class_eta)
  have s: "js ''/'' \<in> lang True (seqs [re_lit CHR ''/''])"
    by (simp add: js_def re_lit_def cu_def)
  have g: "ds \<in> lang True (seqs [re_plus Digit])"
    using d(2,3) by (cases ds) (simp_all add: re_plus_def in_class_eta)
  have t: "js ''10.'' \<in> lang True (seqs [re_word ''10'', re_lit CHR ''.''])"
    by (rule lang_eval) (simp add: regex_eval)
  from lang_seqs_appendI [OF t lang_seqs_appendI [OF g lang_seqs_appendI [OF s n]]]
  show ?thesis using d(1) by (simp add: doi_token_def)
qed

lemma doi_shaped_hd:
  assumes "doi_shaped d"
  shows "\<exists>v. d = cu CHR ''1'' # v"
  using assms by (auto simp: doi_shaped_def js_def cu_def)

lemma label_hd:
  assumes "l \<in> lang True (seqs doi_label)" "\<not> is_space x" "x \<noteq> cu CHR '':''"
    "rest s = l @ x # v"
  shows "\<exists>zs. ms True (seqs doi_label) s = advance s (length l) # zs"
proof -
  let ?tail = "[re_star Space, re_opt (Lit (cu CHR '':'')), re_star Space]"
  have dl: "doi_label = re_word ''doi'' # ?tail" by (simp add: doi_label_def)
  have "doi_label = [re_word ''doi''] @ ?tail" by (simp add: doi_label_def)
  with assms(1) have "l \<in> lang True (seqs ([re_word ''doi''] @ ?tail))" by simp
  then obtain w t where wt: "l = w @ t" "w \<in> lang True (seqs [re_word ''doi''])"
    "t \<in> lang True (seqs ?tail)" unfolding lang_seqs_append by blast
  from wt(2) have wd: "w \<in> lang True (re_word ''doi'')" by simp
  from wt(3) obtain sp1 col sp2 where t: "t = sp1 @ col @ sp2"
    "list_all (in_class True Space) sp1" "list_all (in_class True (Lit (cu CHR '':''))) col"
    "length col \<le> 1" "list_all (in_class True Space) sp2"
    by (auto simp: re_star_def re_opt_def simp del: in_class.simps)
  have "rest s = w @ (t @ x # v)" using assms(4) wt(1) by simp
  from ms_word [OF wd this] have h1: "ms True (re_word ''doi'') s = [advance s (length w)]" .
  let ?s1 = "advance s (length w)"
  have "rest ?s1 = sp1 @ col @ sp2 @ x # v" using assms(4) wt(1) t(1) by (simp add: advance_def)
  with label_tail_hd [of sp1 col sp2 x ?s1 v] t(2-5) assms(2,3)
  obtain zs where "ms True (seqs ?tail) ?s1 = advance ?s1 (length (sp1 @ col @ sp2)) # zs"
    by (auto simp: in_class_eta)
  from ms_Seq_hd [OF h1 this] obtain zs' where
    "ms True (seqs doi_label) s = advance ?s1 (length (sp1 @ col @ sp2)) # zs'"
    unfolding dl by auto
  moreover have "advance ?s1 (length (sp1 @ col @ sp2)) = advance s (length l)"
    using wt(1) t(1) by (simp add: advance_advance)
  ultimately show ?thesis by simp
qed

lemma replace_label:
  assumes "l \<in> lang True (seqs doi_label)" "\<not> is_space x" "x \<noteq> cu CHR '':''"
  shows "replace_empty (l @ x # v) doi_label_re = x # v"
proof -
  let ?s = "start_state doi_label_re 0 (l @ x # v)"
  have "rest ?s = l @ x # v" by (simp add: start_state_def)
  from label_hd [OF assms this] obtain zs where
    "ms True (seqs doi_label) ?s = advance ?s (length l) # zs" by blast
  then have "match_at doi_label_re 0 (l @ x # v) = Some \<lparr>index = 0, groups = [Some l]\<rparr>"
    by (simp add: match_at_def doi_label_re_def start_state_def advance_def)
  from search_hit [OF this] show ?thesis by (simp add: replace_empty_def match_def at_def)
qed

lemma extractDOI_cases:
  "(match doc doi_re = None \<and> extractDOI doc = Inr None)
   \<or> (\<exists>pre l d post. doc = pre @ l @ d @ post \<and> l \<in> lang True (seqs doi_label)
        \<and> doi_shaped d \<and> extractDOI doc = Inr (Some d))"
proof (cases "match doc doi_re")
  case None
  then show ?thesis by (simp add: extractDOI_def)
next
  case (Some m)
  from match_Some_text [OF Some] obtain pre w post where w: "doc = pre @ w @ post"
    "at m 0 = Some w" "w \<in> lang True (seqs (doi_label @ doi_token))"
    by (auto simp: doi_re_def)
  from w(3) obtain l d where ld: "w = l @ d" "l \<in> lang True (seqs doi_label)"
    "d \<in> lang True (seqs doi_token)" unfolding lang_seqs_append by blast
  from doi_token_shaped [OF ld(3)] have sh: "doi_shaped d" .
  from doi_shaped_hd [OF sh] obtain v where v: "d = cu CHR ''1'' # v" by blast
  have "replace_empty (l @ cu CHR ''1'' # v) doi_label_re = cu CHR ''1'' # v"
    by (rule replace_label [OF ld(2)]) (simp_all add: cu_def is_space_def)
  with Some w(2) ld(1) v have "extractDOI doc = Inr (Some d)" by (simp add: extractDOI_def)
  with w(1) ld(1,2) sh show ?thesis by auto
qed

lemma doi_example_at:
  assumes "post = [] \<or> is_space (hd post)"
  shows "match_at doi_re p (js ''DOI: 10.1000/xyz123'' @ post)
         = Some \<lparr>index = p, groups = [Some (js ''DOI: 10.1000/xyz123'')]\<rparr>"
proof (cases post)
  case Nil
  then show ?thesis by (simp add: regex_eval doi_re_def doi_label_def doi_token_def)
next
  case (Cons c cs)
  with assms have "is_space c" by simp
  with Cons show ?thesis by (simp add: regex_eval doi_re_def doi_label_def doi_token_def)
qed

lemma doi_example_in_text:
  assumes "list_all (\<lambda>c. c \<noteq> cu CHR ''d'' \<and> c \<noteq> cu CHR ''D'') pre"
    "post = [] \<or> is_space (hd post)"
  shows "extractDOI (pre @ js ''DOI: 10.1000/xyz123'' @ post) = Inr (Some (js ''10.1000/xyz123''))"
proof -
  let ?e = "js ''DOI: 10.1000/xyz123''"
  have b: "body doi_re = Seq (Seq (Atom (Lit (cu CHR ''d''))) (re_word ''oi'')) (seqs (tl doi_label @ doi_token))"
    by (simp add: doi_re_def doi_label_def re_word_Cons)
  have "list_all (\<lambda>c. \<not> in_class (ignoreCase doi_re) (Lit (cu CHR ''d'')) c) pre"
    using assms(1) by (simp add: doi_re_def d_class del: in_class.simps)
  from search_past [OF b this]
  have "match (pre @ ?e @ post) doi_re = search doi_re (length pre) (?e @ post)"
    by (simp add: match_def)
  also have "\<dots> = Some \<lparr>index = length pre, groups = [Some ?e]\<rparr>"
    by (rule search_hit) (rule doi_example_at [OF assms(2)])
  finally have m: "match (pre @ ?e @ post) doi_re = Some \<lparr>index = length pre, groups = [Some ?e]\<rparr>" .
  have r: "replace_empty ?e doi_label_re = js ''10.1000/xyz123''" by code_simp
  from m r show ?thesis by (simp add: extractDOI_def at_def)
qed

lemma doi_example:
  "extractDOI (js ''DOI: 10.1000/xyz123'') = Inr (Some (js ''10.1000/xyz123''))"
  by code_simp

subsection \<open>The journal patterns\<close>

lemma published_no_start:
  assumes "q \<noteq> []" "list_all (\<lambda>c. c \<noteq> cu CHR ''b'' \<and> c \<noteq> cu CHR ''B'') q"
  shows "match_at published_re p (q @ js ''Published in XYZ Magazine'' @ post) = None"
proof -
  consider a where "q = [a]" | a b where "q = [a, b]"
    | a b c q' where "q = a # b # c # q'" "c \<noteq> cu CHR ''b''" "c \<noteq> cu CHR ''B''"
    using assms by (cases q; cases "tl q"; cases "tl (tl q)") auto
  then show ?thesis
  proof cases
    case 1
    then show ?thesis
      by (simp add: regex_eval published_re_def published_phrase_def not_comma_def)
  next
    case 2
    then show ?thesis
      by (simp add: regex_eval published_re_def published_phrase_def not_comma_def)
  next
    case 3
    then show ?thesis
      by (simp add: regex_eval published_re_def published_phrase_def not_comma_def)
  qed
qed

lemma published_example_at:
  assumes "post = [] \<or> hd post = comma"
  shows "match_at published_re p (js ''Published in XYZ Magazine'' @ post)
         = Some \<lparr>index = p,
                 groups = [Some (js ''Published in XYZ Magazine''), Some (js ''XYZ Magazine'')]\<rparr>"
proof (cases post)
  case Nil
  then show ?thesis
    by (simp add: regex_eval published_re_def published_phrase_def not_comma_def)
next
  case (Cons c cs)
  with assms have "c = 0x2C" by (simp add: comma_def cu_def)
  with Cons show ?thesis
    by (simp add: regex_eval published_re_def published_phrase_def not_comma_def)
qed

lemma published_example_in_text:
  assumes "list_all (\<lambda>c. c \<noteq> cu CHR ''b'' \<and> c \<noteq> cu CHR ''B'') pre"
    "post = [] \<or> hd post = comma"
  shows "extractJournal (pre @ js ''Published in XYZ Magazine'' @ post)
         = Inr (Some (js ''XYZ Magazine''))"
proof -
  let ?e = "js ''Published in XYZ Magazine''"
  have "\<forall>j < length pre. match_at published_re (0 + j) (drop j (pre @ ?e @ post)) = None"
  proof (intro allI impI)
    fix j assume j: "j < length pre"
    then have "drop j pre \<noteq> []" by simp
    moreover have "list_all (\<lambda>c. c \<noteq> cu CHR ''b'' \<and> c \<noteq> cu CHR ''B'') (drop j pre)"
      using assms(1) by (auto simp: list_all_iff dest: in_set_dropD)
    ultimately have "match_at published_re (0 + j) (drop j pre @ ?e @ post) = None"
      by (rule published_no_start)
    with j show "match_at published_re (0 + j) (drop j (pre @ ?e @ post)) = None" by simp
  qed
  from search_skip [OF this]
  have "match (pre @ ?e @ post) published_re = search published_re (length pre) (?e @ post)"
    by (simp add: match_def)
  also have "\<dots> = Some \<lparr>index = length pre, groups = [Some ?e, Some (js ''XYZ Magazine'')]\<rparr>"
    by (rule search_hit) (rule published_example_at [OF assms(2)])
  finally have m: "match (pre @ ?e @ post) published_re
      = Some \<lparr>index = length pre, groups = [Some ?e, Some (js ''XYZ Magazine'')]\<rparr>" .
  have t: "trim (js ''XYZ Magazine'') = js ''XYZ Magazine''" by code_simp
  from m t show ?thesis by (simp add: extractJournal_def journalPatterns_def at_def)
qed

lemma phrase_match_captured:
  assumes "body re = seqs (phrase @ [Group 1 (re_plus not_comma)])" "ignoreCase re = True"
    "ngroups re = 1" "match doc re = Some m"
  shows "\<exists>g. at m 1 = Some g \<and> captured_after phrase doc g"
proof -
  from match_last_group [OF assms(1) assms(4)] assms(2,3)
  obtain pre kw g post where g: "doc = pre @ kw @ g @ post" "kw \<in> lang True (seqs phrase)"
    "at m 1 = Some g" "g \<noteq> []" "list_all (in_class True not_comma) g"
    "post = [] \<or> \<not> in_class True not_comma (hd post)" by auto
  have "in_class True not_comma = (\<lambda>c. c \<noteq> comma)" by (rule ext) (rule comma_class)
  with g show ?thesis unfolding captured_after_def by auto
qed

lemma phrase_match_occurs:
  assumes "body re = seqs (phrase @ [Group 1 (re_plus not_comma)])" "ignoreCase re = True"
    "ngroups re = 1" "plain (body re)"
  shows "match doc re \<noteq> None \<longleftrightarrow> occurs phrase doc"
proof
  assume "match doc re \<noteq> None"
  then obtain m where "match doc re = Some m" by blast
  from phrase_match_captured [OF assms(1-3) this] obtain g where "captured_after phrase doc g"
    by blast
  then obtain pre kw post where g: "doc = pre @ kw @ g @ post" "kw \<in> lang True (seqs phrase)"
    "g \<noteq> []" "list_all (\<lambda>c. c \<noteq> comma) g" unfolding captured_after_def by blast
  from g(3) obtain c g' where "g = c # g'" by (cases g) auto
  with g show "occurs phrase doc" unfolding occurs_def by auto
next
  assume "occurs phrase doc"
  then obtain pre kw c post where o: "doc = pre @ kw @ c # post" "kw \<in> lang True (seqs phrase)"
    "c \<noteq> comma" unfolding occurs_def by blast
  from o(3) have "[c] \<in> lang True (seqs [Group 1 (re_plus not_comma)])"
    by (simp add: re_plus_def comma_class del: in_class.simps)
  from lang_seqs_appendI [OF o(2) this] have "kw @ [c] \<in> lang (ignoreCase re) (body re)"
    using assms(1,2) by simp
  from match_complete [OF assms(4) this, of pre post] o(1) show "match doc re \<noteq> None" by simp
qed

lemma journal_res:
  "extractJournal doc =
     (case match doc published_re of
        Some m \<Rightarrow> (case at m 1 of None \<Rightarrow> Inl TypeError | Some g \<Rightarrow> Inr (Some (trim g)))
      | None \<Rightarrow>
          (case match doc journal_of_re of
             Some m \<Rightarrow> (case at m 1 of None \<Rightarrow> Inl TypeError | Some g \<Rightarrow> Inr (Some (trim g)))
           | None \<Rightarrow>
               (case match doc proceedings_re of
                  Some m \<Rightarrow>
                    (case at m 1 of None \<Rightarrow> Inl TypeError | Some g \<Rightarrow> Inr (Some (trim g)))
                | None \<Rightarrow> Inr None)))"
  by (simp add: extractJournal_def journalPatterns_def split: option.splits)

lemma journal_patterns_plain:
  "plain (body published_re)" "plain (body journal_of_re)" "plain (body proceedings_re)"
  by (simp_all add: published_re_def journal_of_re_def proceedings_re_def published_phrase_def
        journal_of_phrase_def proceedings_phrase_def re_word_def re_lit_def re_plus_def)

lemma journal_occurs:
  "match doc published_re \<noteq> None \<longleftrightarrow> occurs published_phrase doc"
  "match doc journal_of_re \<noteq> None \<longleftrightarrow> occurs journal_of_phrase doc"
  "match doc proceedings_re \<noteq> None \<longleftrightarrow> occurs proceedings_phrase doc"
proof -
  show "match doc published_re \<noteq> None \<longleftrightarrow> occurs published_phrase doc"
    by (rule phrase_match_occurs [OF _ _ _ journal_patterns_plain(1)])
       (simp_all add: published_re_def)
  show "match doc journal_of_re \<noteq> None \<longleftrightarrow> occurs journal_of_phrase doc"
    by (rule phrase_match_occurs [OF _ _ _ journal_patterns_plain(2)])
       (simp_all add: journal_of_re_def)
  show "match doc proceedings_re \<noteq> None \<longleftrightarrow> occurs proceedings_phrase doc"
    by (rule phrase_match_occurs [OF _ _ _ journal_patterns_plain(3)])
       (simp_all add: proceedings_re_def)
qed

lemma journal_captured:
  "match doc published_re = Some m \<Longrightarrow> \<exists>g. at m 1 = Some g \<and> captured_after published_phrase doc g"
  "match doc journal_of_re = Some m \<Longrightarrow> \<exists>g. at m 1 = Some g \<and> captured_after journal_of_phrase doc g"
  "match doc proceedings_re = Some m \<Longrightarrow> \<exists>g. at m 1 = Some g \<and> captured_after proceedings_phrase doc g"
  by (erule phrase_match_captured [rotated 3];
      simp add: published_re_def journal_of_re_def proceedings_re_def)+

lemma journal_examples:
  "extractJournal (js ''Journal of Computing, 2020 Published in XYZ Magazine'')
   = Inr (Some (js ''XYZ Magazine''))"
  "extractJournal (js ''Journal of Computing, 2020
Published in XYZ Magazine'') = Inr (Some (js ''XYZ Magazine''))"
  by code_simp+

subsection \<open>The date patterns\<close>

lemma kanji_example_at:
  "match_at date_kanji_re p (js ''2023'' @ [nen] @ js ''5'' @ [gatsu] @ post)
   = Some \<lparr>index = p,
           groups = [Some (js ''2023'' @ [nen] @ js ''5'' @ [gatsu]), Some (js ''2023''),
                     Some (js ''5'')]\<rparr>"
  by (simp add: regex_eval replicate_numeral date_kanji_re_def nen_def gatsu_def)

lemma kanji_no_start:
  assumes "q \<noteq> []" "nen \<notin> set q"
  shows "match_at date_kanji_re p (q @ js ''2023'' @ nen # post) = None"
proof (rule ccontr)
  assume "match_at date_kanji_re p (q @ js ''2023'' @ nen # post) \<noteq> None"
  then obtain m where "match_at date_kanji_re p (q @ js ''2023'' @ nen # post) = Some m" by blast
  from match_at_Some [OF this] obtain s' ss where
    "ms False (body date_kanji_re) (start_state date_kanji_re p (q @ js ''2023'' @ nen # post))
      = s' # ss" by (auto simp: date_kanji_re_def)
  then have "s' \<in> set (ms False (body date_kanji_re)
      (start_state date_kanji_re p (q @ js ''2023'' @ nen # post)))" by simp
  from ms_sound [OF this] obtain w where w: "q @ js ''2023'' @ nen # post = w @ rest s'"
    "w \<in> lang False (body date_kanji_re)" by (auto simp: start_state_def)
  let ?hd = "[Group 1 (re_times Digit 4), re_star Space, Atom (Lit nen)]"
  let ?tl = "[re_star Space, Group 2 (re_between Digit 1 2), re_star Space, Atom (Lit gatsu)]"
  have "w \<in> lang False (seqs (?hd @ ?tl))" using w(2) by (simp add: date_kanji_re_def)
  then obtain u v where uv: "w = u @ v" "u \<in> lang False (seqs ?hd)"
    unfolding lang_seqs_append by blast
  from uv(2) obtain d4 sp where u: "u = d4 @ sp @ [nen]" "list_all is_digit d4" "length d4 = 4"
    "list_all is_space sp"
    by (auto simp: re_times_def re_star_def canonicalize_def in_class_eta)
  have n1: "nen \<notin> set (q @ js ''2023'')" using assms(2) by (simp add: js_def nen_def)
  have "\<not> is_digit nen" "\<not> is_space nen" by (simp_all add: is_digit_def is_space_def nen_def)
  with u(2,4) have n2: "nen \<notin> set (d4 @ sp)" by (auto simp: list_all_iff)
  have "(q @ js ''2023'') @ nen # post = (d4 @ sp) @ nen # (v @ rest s')"
    using w(1) uv(1) u(1) by simp
  with n1 n2 have e: "q @ js ''2023'' = d4 @ sp" by (rule first_split_unique)
  then have "length (q @ js ''2023'') = length (d4 @ sp)" by (rule arg_cong)
  then have "length q + 4 = 4 + length sp" using u(3) by (simp add: js_def)
  with assms(1) have "sp \<noteq> []" by auto
  then have "last (d4 @ sp) = last sp" by simp
  moreover from \<open>sp \<noteq> []\<close> u(4) have "is_space (last sp)" by (simp add: list_all_iff)
  moreover have "last (q @ js ''2023'') = 0x33" by (simp add: js_def)
  ultimately have "is_space (0x33 :: jschar)" using e by simp
  then show False by (simp add: is_space_def)
qed

lemma date_patterns_plain:
  "plain (body date_kanji_re)" "plain (body date_numeric_re)" "plain (body date_spaced_re)"
  by (simp_all add: date_kanji_re_def date_numeric_re_def date_spaced_re_def re_times_def
        re_between_def re_star_def re_plus_def)

lemma parseInt_undefined: "parseInt None = None"
  by code_simp

lemma kanji_no_day:
  assumes "match doc date_kanji_re = Some m"
  shows "or_one (parseInt (at m 3)) = 1"
proof -
  from match_groups_length [OF assms] have "at m 3 = None"
    by (simp add: at_def date_kanji_re_def)
  then show ?thesis by (simp add: parseInt_undefined or_one_def)
qed

lemma date_res:
  "extractPublicationDate doc =
     (case match doc date_kanji_re of
        Some m \<Rightarrow> Some (NewDate (parseInt (at m 1)) (or_one (parseInt (at m 2)) - 1)
                           (or_one (parseInt (at m 3))))
      | None \<Rightarrow>
          (case match doc date_numeric_re of
             Some m \<Rightarrow> Some (NewDate (parseInt (at m 1)) (or_one (parseInt (at m 2)) - 1)
                                (or_one (parseInt (at m 3))))
           | None \<Rightarrow>
               (case match doc date_spaced_re of
                  Some m \<Rightarrow> Some (NewDate (parseInt (at m 1)) (or_one (parseInt (at m 2)) - 1)
                                     (or_one (parseInt (at m 3))))
                | None \<Rightarrow> None)))"
  by (simp add: extractPublicationDate_def datePatterns_def Let_def split: option.splits)

lemma kanji_example_in_text:
  assumes "nen \<notin> set pre"
  shows "extractPublicationDate (pre @ js ''2023'' @ [nen] @ js ''5'' @ [gatsu] @ post)
         = Some (NewDate (Some 2023) 4 1)"
proof -
  let ?e = "js ''2023'' @ [nen] @ js ''5'' @ [gatsu]"
  have "\<forall>j < length pre. match_at date_kanji_re (0 + j) (drop j (pre @ ?e @ post)) = None"
  proof (intro allI impI)
    fix j assume j: "j < length pre"
    then have "drop j pre \<noteq> []" by simp
    moreover have "nen \<notin> set (drop j pre)" using assms by (auto dest: in_set_dropD)
    ultimately have "match_at date_kanji_re (0 + j)
        (drop j pre @ js ''2023'' @ nen # (js ''5'' @ [gatsu] @ post)) = None"
      by (rule kanji_no_start)
    with j show "match_at date_kanji_re (0 + j) (drop j (pre @ ?e @ post)) = None" by simp
  qed
  from search_skip [OF this]
  have "match (pre @ ?e @ post) date_kanji_re = search date_kanji_re (length pre) (?e @ post)"
    by (simp add: match_def)
  also have "\<dots> = Some \<lparr>index = length pre, groups = [Some ?e, Some (js ''2023''), Some (js ''5'')]\<rparr>"
    using kanji_example_at [of "length pre" post] by (intro search_hit) simp
  finally have m: "match (pre @ ?e @ post) date_kanji_re
      = Some \<lparr>index = length pre, groups = [Some ?e, Some (js ''2023''), Some (js ''5'')]\<rparr>" .
  have y: "parseInt (Some (js ''2023'')) = Some 2023" by code_simp
  have mo: "parseInt (Some (js ''5'')) = Some 5" by code_simp
  from m y mo show ?thesis
    by (simp add: date_res at_def parseInt_undefined or_one_def)
qed

lemma date_matches_in:
  "match doc date_kanji_re \<noteq> None \<longleftrightarrow> matches_in date_kanji_re doc"
  "match doc date_numeric_re \<noteq> None \<longleftrightarrow> matches_in date_numeric_re doc"
  "match doc date_spaced_re \<noteq> None \<longleftrightarrow> matches_in date_spaced_re doc"
  by (rule match_iff_matches_in, rule date_patterns_plain)+

lemma parseInt_digits:
  assumes "g \<noteq> []" "list_all is_digit g"
  shows "parseInt (Some g) = Some (decimal g)"
proof -
  from assms obtain c cs where g: "g = c # cs" "is_digit c" "list_all is_digit cs"
    by (cases g) auto
  from g(2) have ns: "\<not> is_space c" by (rule digit_not_space)
  from g(2) have sg: "c \<noteq> 0x2D" "c \<noteq> 0x2B" by (auto simp: is_digit_def)
  have hx: "take 2 g \<noteq> js ''0x''" "take 2 g \<noteq> js ''0X''"
  proof -
    show "take 2 g \<noteq> js ''0x''"
    proof (cases cs)
      case Nil
      with g(1) show ?thesis by (simp add: js_def)
    next
      case (Cons c2 cs2)
      with g(3) have "c2 \<noteq> 0x78" by (auto simp: is_digit_def)
      with Cons g(1) show ?thesis by (simp add: js_def)
    qed
    show "take 2 g \<noteq> js ''0X''"
    proof (cases cs)
      case Nil
      with g(1) show ?thesis by (simp add: js_def)
    next
      case (Cons c2 cs2)
      with g(3) have "c2 \<noteq> 0x58" by (auto simp: is_digit_def)
      with Cons g(1) show ?thesis by (simp add: js_def)
    qed
  qed
  have tw: "takeWhile (is_radix_digit 10) g = g"
    using assms(2) by (auto simp: takeWhile_eq_all_conv list_all_iff digit_radix)
  have dw: "dropWhile is_space g = g" using g(1) ns by simp
  have t1: "take 1 g \<noteq> js ''-''" "take 1 g \<noteq> js ''+''" using g(1) sg by (simp_all add: js_def)
  have "parseInt (Some g) = (if g = [] then None else Some (1 * int (digits_value 10 g)))"
    by (simp only: parseInt_def Let_def option.case dw t1 hx tw if_False simp_thms)
  with assms(1) show ?thesis by (simp add: decimal_def)
qed

lemma date_kanji_captures:
  assumes "match doc date_kanji_re = Some m"
  shows "\<exists>y mo. at m 1 = Some y \<and> digits 4 4 y \<and> at m 2 = Some mo \<and> digits 1 2 mo"
proof -
  have "\<exists>g. at m 1 = Some g \<and> g \<in> lang (ignoreCase date_kanji_re) (re_times Digit 4)"
    by (rule match_group_lang [OF assms, where xs = "[]"
          and ys = "[re_star Space, Atom (Lit nen), re_star Space,
                     Group 2 (re_between Digit 1 2), re_star Space, Atom (Lit gatsu)]"])
       (simp_all add: date_kanji_re_def re_star_def re_between_def)
  moreover
  have "\<exists>g. at m 2 = Some g \<and> g \<in> lang (ignoreCase date_kanji_re) (re_between Digit 1 2)"
    by (rule match_group_lang [OF assms,
          where xs = "[Group 1 (re_times Digit 4), re_star Space, Atom (Lit nen), re_star Space]"
          and ys = "[re_star Space, Atom (Lit gatsu)]"])
       (simp_all add: date_kanji_re_def re_star_def)
  ultimately show ?thesis unfolding re_times_def re_between_def lang_digits by blast
qed

lemma date_numeric_captures:
  assumes "match doc date_numeric_re = Some m"
  shows "\<exists>y mo d. at m 1 = Some y \<and> digits 4 4 y \<and> at m 2 = Some mo \<and> digits 1 2 mo
           \<and> at m 3 = Some d \<and> digits 1 2 d"
proof -
  have "\<exists>g. at m 1 = Some g \<and> g \<in> lang (ignoreCase date_numeric_re) (re_times Digit 4)"
    by (rule match_group_lang [OF assms, where xs = "[]"
          and ys = "[Atom date_sep, Group 2 (re_between Digit 1 2), Atom date_sep,
                     Group 3 (re_between Digit 1 2)]"])
       (simp_all add: date_numeric_re_def re_between_def)
  moreover
  have "\<exists>g. at m 2 = Some g \<and> g \<in> lang (ignoreCase date_numeric_re) (re_between Digit 1 2)"
    by (rule match_group_lang [OF assms,
          where xs = "[Group 1 (re_times Digit 4), Atom date_sep]"
          and ys = "[Atom date_sep, Group 3 (re_between Digit 1 2)]"])
       (simp_all add: date_numeric_re_def re_between_def)
  moreover
  have "\<exists>g. at m 3 = Some g \<and> g \<in> lang (ignoreCase date_numeric_re) (re_between Digit 1 2)"
    by (rule match_group_lang [OF assms,
          where xs = "[Group 1 (re_times Digit 4), Atom date_sep,
                       Group 2 (re_between Digit 1 2), Atom date_sep]" and ys = "[]"])
       (simp_all add: date_numeric_re_def)
  ultimately show ?thesis unfolding re_times_def re_between_def lang_digits by blast
qed

lemma date_spaced_captures:
  assumes "match doc date_spaced_re = Some m"
  shows "\<exists>y mo d. at m 1 = Some y \<and> digits 4 4 y \<and> at m 2 = Some mo \<and> digits 1 2 mo
           \<and> at m 3 = Some d \<and> digits 1 2 d"
proof -
  have "\<exists>g. at m 1 = Some g \<and> g \<in> lang (ignoreCase date_spaced_re) (re_times Digit 4)"
    by (rule match_group_lang [OF assms, where xs = "[]"
          and ys = "[re_plus Space, Group 2 (re_between Digit 1 2), re_plus Space,
                     Group 3 (re_between Digit 1 2)]"])
       (simp_all add: date_spaced_re_def re_between_def re_plus_def)
  moreover
  have "\<exists>g. at m 2 = Some g \<and> g \<in> lang (ignoreCase date_spaced_re) (re_between Digit 1 2)"
    by (rule match_group_lang [OF assms,
          where xs = "[Group 1 (re_times Digit 4), re_plus Space]"
          and ys = "[re_plus Space, Group 3 (re_between Digit 1 2)]"])
       (simp_all add: date_spaced_re_def re_between_def re_plus_def)
  moreover
  have "\<exists>g. at m 3 = Some g \<and> g \<in> lang (ignoreCase date_spaced_re) (re_between Digit 1 2)"
    by (rule match_group_lang [OF assms,
          where xs = "[Group 1 (re_times Digit 4), re_plus Space,
                       Group 2 (re_between Digit 1 2), re_plus Space]" and ys = "[]"])
       (simp_all add: date_spaced_re_def)
  ultimately show ?thesis unfolding re_times_def re_between_def lang_digits by blast
qed

lemma parseInt_captured:
  assumes "digits lo hi g" "0 < lo"
  shows "parseInt (Some g) = Some (decimal g)"
  using assms by (intro parseInt_digits) (auto simp: digits_def)

lemma date_kanji_result:
  assumes "match doc date_kanji_re = Some m"
  shows "\<exists>y mo. at m 1 = Some y \<and> digits 4 4 y \<and> at m 2 = Some mo \<and> digits 1 2 mo
           \<and> extractPublicationDate doc
               = Some (NewDate (Some (decimal y)) (or_one (Some (decimal mo)) - 1) 1)"
proof -
  from date_kanji_captures [OF assms] obtain y mo where c: "at m 1 = Some y" "digits 4 4 y"
    "at m 2 = Some mo" "digits 1 2 mo" by blast
  from c(2,4) have "parseInt (Some y) = Some (decimal y)" "parseInt (Some mo) = Some (decimal mo)"
    by (simp_all add: parseInt_captured)
  with assms c kanji_no_day [OF assms] show ?thesis by (simp add: date_res)
qed

lemma date_numeric_result:
  assumes "match doc date_kanji_re = None" "match doc date_numeric_re = Some m"
  shows "\<exists>y mo d. at m 1 = Some y \<and> digits 4 4 y \<and> at m 2 = Some mo \<and> digits 1 2 mo
           \<and> at m 3 = Some d \<and> digits 1 2 d
           \<and> extractPublicationDate doc
               = Some (NewDate (Some (decimal y)) (or_one (Some (decimal mo)) - 1)
                         (or_one (Some (decimal d))))"
proof -
  from date_numeric_captures [OF assms(2)] obtain y mo d where c: "at m 1 = Some y"
    "digits 4 4 y" "at m 2 = Some mo" "digits 1 2 mo" "at m 3 = Some d" "digits 1 2 d" by blast
  from c(2,4,6) have "parseInt (Some y) = Some (decimal y)"
    "parseInt (Some mo) = Some (decimal mo)" "parseInt (Some d) = Some (decimal d)"
    by (simp_all add: parseInt_captured)
  with assms c show ?thesis by (simp add: date_res)
qed

lemma date_spaced_result:
  assumes "match doc date_kanji_re = None" "match doc date_numeric_re = None"
    "match doc date_spaced_re = Some m"
  shows "\<exists>y mo d. at m 1 = Some y \<and> digits 4 4 y \<and> at m 2 = Some mo \<and> digits 1 2 mo
           \<and> at m 3 = Some d \<and> digits 1 2 d
           \<and> extractPublicationDate doc
               = Some (NewDate (Some (decimal y)) (or_one (Some (decimal mo)) - 1)
                         (or_one (Some (decimal d))))"
proof -
  from date_spaced_captures [OF assms(3)] obtain y mo d where c: "at m 1 = Some y"
    "digits 4 4 y" "at m 2 = Some mo" "digits 1 2 mo" "at m 3 = Some d" "digits 1 2 d" by blast
  from c(2,4,6) have "parseInt (Some y) = Some (decimal y)"
    "parseInt (Some mo) = Some (decimal mo)" "parseInt (Some d) = Some (decimal d)"
    by (simp_all add: parseInt_captured)
  with assms c show ?thesis by (simp add: date_res)
qed

lemma date_examples:
  "extractPublicationDate (js ''2023'' @ [nen] @ js ''5'' @ [gatsu] @ js '' 2023-06-07'')
   = Some (NewDate (Some 2023) 4 1)"
  "extractPublicationDate (js ''2023-06-07 2023'' @ [nen] @ js ''5'' @ [gatsu])
   = Some (NewDate (Some 2023) 4 1)"
  by code_simp+

subsection \<open>The assembled object\<close>

lemma unknown_title_not_Nil: "unknown_title \<noteq> []"
  by (simp add: unknown_title_def)

lemma title_cases:
  "title (extractBasicInfo pdf buf) = unknown_title
   \<or> (\<exists>text. pdf buf = Inr text \<and> extractTitle text = Some (title (extractBasicInfo pdf buf)))"
  by (auto simp: extractBasicInfo_def degraded_def or_string_def Let_def
           split: sum.splits option.splits)

lemma extractors_empty:
  "extractTitle [] = None" "extractAuthors [] = []" "extractAbstract [] = Inr None"
  "extractDOI [] = Inr None" "extractPublicationDate [] = None" "extractJournal [] = Inr None"
  by code_simp+

section \<open>The claims\<close>

text \<open>
  C1. Whatever \<^verbatim>\<open>pdf\<close> does and whatever the text is, the title of the object that
  \<^verbatim>\<open>extractBasicInfo\<close> returns is a string, and not the empty one: it is the literal
  for an unknown title, or it is what \<^verbatim>\<open>extractTitle\<close> returned, one of the first ten
  trimmed lines of the text, which satisfies the rules for a title.
\<close>

theorem title_never_null:
  "title (extractBasicInfo pdf buf) \<noteq> []
   \<and> (title (extractBasicInfo pdf buf) = unknown_title
      \<or> (\<exists>text. pdf buf = Inr text
           \<and> extractTitle text = Some (title (extractBasicInfo pdf buf))
           \<and> title (extractBasicInfo pdf buf) \<in> set (normalized_lines 10 text)
           \<and> acceptable_title (title (extractBasicInfo pdf buf))))"
proof -
  let ?t = "title (extractBasicInfo pdf buf)"
  from title_cases [of pdf buf] show ?thesis
  proof
    assume "?t = unknown_title"
    then show ?thesis by (simp add: unknown_title_not_Nil)
  next
    assume "\<exists>text. pdf buf = Inr text \<and> extractTitle text = Some ?t"
    then obtain doc where t: "pdf buf = Inr doc" "extractTitle doc = Some ?t" by blast
    from extractTitle_Some [OF t(2)]
    have m: "?t \<in> set (normalized_lines 10 doc)" "acceptable_title ?t"
      by simp_all
    from m(2) have "?t \<noteq> []" by (auto simp: acceptable_title_def)
    with t m show ?thesis by blast
  qed
qed

text \<open>
  C2. When \<^verbatim>\<open>pdf\<close> fails, \<^verbatim>\<open>extractBasicInfo\<close> still returns an object: the one of the
  \<^verbatim>\<open>catch\<close> branch, with the literal for an unknown title, no authors, and none of
  the four optional properties.
\<close>

theorem upstream_failure_degraded:
  "pdf buf = Inl e \<Longrightarrow>
   extractBasicInfo pdf buf =
     \<lparr>title = unknown_title, authors = [], abstract = Undefined, doi = Undefined,
      publicationDate = Undefined, journal = Undefined\<rparr>"
  by (simp add: extractBasicInfo_def degraded_def)

theorem upstream_failure_degraded_witness:
  "extractBasicInfo (\<lambda>b. Inl PdfError) [0x25, 0x50] =
     \<lparr>title = unknown_title, authors = [], abstract = Undefined, doi = Undefined,
      publicationDate = Undefined, journal = Undefined\<rparr>"
  using upstream_failure_degraded [of "\<lambda>b. Inl PdfError" "[0x25, 0x50]" PdfError] by simp

text \<open>
  C3. \<^verbatim>\<open>extractAuthors\<close> returns the qualifying lines (those that start with two
  capitalized words and not with a section keyword) among the first twenty trimmed
  lines, in their order, cut to the first five; so it never returns more than five,
  and it returns the empty array when no line qualifies.
\<close>

theorem extractAuthors_capped:
  "extractAuthors text = take 5 (filter qualifies (normalized_lines 20 text))
   \<and> length (extractAuthors text) \<le> 5
   \<and> ((\<forall>l \<in> set (normalized_lines 20 text). \<not> qualifies l) \<longrightarrow> extractAuthors text = [])"
proof -
  have e: "extractAuthors text = take 5 (filter qualifies (normalized_lines 20 text))"
    by (simp add: extractAuthors_def authors_loop_filter normalized_lines_def slice0_def)
  moreover have "length (take 5 (filter qualifies (normalized_lines 20 text))) \<le> 5" by simp
  moreover have "(\<forall>l \<in> set (normalized_lines 20 text). \<not> qualifies l)
      \<longrightarrow> take 5 (filter qualifies (normalized_lines 20 text)) = []"
    by (simp add: filter_empty_conv)
  ultimately show ?thesis by simp
qed

theorem extractAuthors_capped_witness:
  "extractAuthors (js ''Ada Lovelace
Alan Turing
Grace Hopper
Edsger Dijkstra
Barbara Liskov
Donald Knuth'')
     = [js ''Ada Lovelace'', js ''Alan Turing'', js ''Grace Hopper'', js ''Edsger Dijkstra'',
        js ''Barbara Liskov'']
   \<and> normalized_lines 20 (js ''Abstract Algebra
a survey'') = [js ''Abstract Algebra'', js ''a survey'']
   \<and> \<not> qualifies (js ''Abstract Algebra'') \<and> \<not> qualifies (js ''a survey'')
   \<and> extractAuthors (js ''Abstract Algebra
a survey'') = []"
proof -
  let ?six = "js ''Ada Lovelace
Alan Turing
Grace Hopper
Edsger Dijkstra
Barbara Liskov
Donald Knuth''"
  let ?none = "js ''Abstract Algebra
a survey''"
  have six: "extractAuthors ?six
     = [js ''Ada Lovelace'', js ''Alan Turing'', js ''Grace Hopper'', js ''Edsger Dijkstra'',
        js ''Barbara Liskov'']" by code_simp
  have l: "normalized_lines 20 ?none = [js ''Abstract Algebra'', js ''a survey'']" by code_simp
  have "\<not> author_line (js ''Abstract Algebra'')" "\<not> author_line (js ''a survey'')"
    by code_simp+
  then have n: "\<not> qualifies (js ''Abstract Algebra'')" "\<not> qualifies (js ''a survey'')"
    by (simp_all only: author_line_rules not_False_eq_True)
  with l have "\<forall>l \<in> set (normalized_lines 20 ?none). \<not> qualifies l" by simp
  with extractAuthors_capped [of ?none] have "extractAuthors ?none = []" by blast
  with six l n show ?thesis by blast
qed

text \<open>
  C4. \<^verbatim>\<open>extractPublicationDate\<close> uses the first of its three patterns that matches
  somewhere in the text: the year-and-month notation if it matches, else the notation
  with \<^verbatim>\<open>-\<close> or \<^verbatim>\<open>/\<close>, else the one with spaces, else it returns \<^verbatim>\<open>null\<close>. The date is made
  from the four digits of group 1 as the year, the one or two digits of group 2 as the
  month (1 when they write zero; the month index is one less) and the one or two digits
  of group 3 as the day (1 when they write zero). In the code the month and the day are
  \<^verbatim>\<open>parseInt(...) || 1\<close>, which is 1 for a group that is not there and for a capture that
  is not a number; the first pattern has no third group, so with it the day is always 1.
  The text made of the year-and-month notation for May 2023 and of \<^verbatim>\<open>2023-06-07\<close>, in
  either order, gives the year 2023, the month May (index 4) and the day 1; and so
  does every text in which that notation stands with no year sign before it.
\<close>

theorem date_first_pattern_wins:
  "((matches_in date_kanji_re text
       \<and> (\<exists>m y mo. match text date_kanji_re = Some m
              \<and> at m 1 = Some y \<and> digits 4 4 y \<and> at m 2 = Some mo \<and> digits 1 2 mo
              \<and> extractPublicationDate text
                  = Some (NewDate (Some (decimal y)) (or_one (Some (decimal mo)) - 1) 1)))
    \<or> (\<not> matches_in date_kanji_re text \<and> matches_in date_numeric_re text
       \<and> (\<exists>m y mo d. match text date_numeric_re = Some m
              \<and> at m 1 = Some y \<and> digits 4 4 y \<and> at m 2 = Some mo \<and> digits 1 2 mo
              \<and> at m 3 = Some d \<and> digits 1 2 d
              \<and> extractPublicationDate text
                  = Some (NewDate (Some (decimal y)) (or_one (Some (decimal mo)) - 1)
                            (or_one (Some (decimal d))))))
    \<or> (\<not> matches_in date_kanji_re text \<and> \<not> matches_in date_numeric_re text
       \<and> matches_in date_spaced_re text
       \<and> (\<exists>m y mo d. match text date_spaced_re = Some m
              \<and> at m 1 = Some y \<and> digits 4 4 y \<and> at m 2 = Some mo \<and> digits 1 2 mo
              \<and> at m 3 = Some d \<and> digits 1 2 d
              \<and> extractPublicationDate text
                  = Some (NewDate (Some (decimal y)) (or_one (Some (decimal mo)) - 1)
                            (or_one (Some (decimal d))))))
    \<or> (\<not> matches_in date_kanji_re text \<and> \<not> matches_in date_numeric_re text
       \<and> \<not> matches_in date_spaced_re text \<and> extractPublicationDate text = None))
   \<and> or_one (parseInt None) = 1
   \<and> (\<forall>g. parseInt (Some g) = None \<longrightarrow> or_one (parseInt (Some g)) = 1)
   \<and> extractPublicationDate (js ''2023'' @ [nen] @ js ''5'' @ [gatsu] @ js '' 2023-06-07'')
       = Some (NewDate (Some 2023) 4 1)
   \<and> extractPublicationDate (js ''2023-06-07 2023'' @ [nen] @ js ''5'' @ [gatsu])
       = Some (NewDate (Some 2023) 4 1)
   \<and> (nen \<notin> set before
       \<longrightarrow> extractPublicationDate (before @ js ''2023'' @ [nen] @ js ''5'' @ [gatsu] @ after)
           = Some (NewDate (Some 2023) 4 1))"
proof (intro conjI impI allI)
  show "extractPublicationDate (js ''2023'' @ [nen] @ js ''5'' @ [gatsu] @ js '' 2023-06-07'')
       = Some (NewDate (Some 2023) 4 1)" by (rule date_examples(1))
next
  show "extractPublicationDate (js ''2023-06-07 2023'' @ [nen] @ js ''5'' @ [gatsu])
       = Some (NewDate (Some 2023) 4 1)" by (rule date_examples(2))
next
  show "(matches_in date_kanji_re text
       \<and> (\<exists>m y mo. match text date_kanji_re = Some m
              \<and> at m 1 = Some y \<and> digits 4 4 y \<and> at m 2 = Some mo \<and> digits 1 2 mo
              \<and> extractPublicationDate text
                  = Some (NewDate (Some (decimal y)) (or_one (Some (decimal mo)) - 1) 1)))
    \<or> (\<not> matches_in date_kanji_re text \<and> matches_in date_numeric_re text
       \<and> (\<exists>m y mo d. match text date_numeric_re = Some m
              \<and> at m 1 = Some y \<and> digits 4 4 y \<and> at m 2 = Some mo \<and> digits 1 2 mo
              \<and> at m 3 = Some d \<and> digits 1 2 d
              \<and> extractPublicationDate text
                  = Some (NewDate (Some (decimal y)) (or_one (Some (decimal mo)) - 1)
                            (or_one (Some (decimal d))))))
    \<or> (\<not> matches_in date_kanji_re text \<and> \<not> matches_in date_numeric_re text
       \<and> matches_in date_spaced_re text
       \<and> (\<exists>m y mo d. match text date_spaced_re = Some m
              \<and> at m 1 = Some y \<and> digits 4 4 y \<and> at m 2 = Some mo \<and> digits 1 2 mo
              \<and> at m 3 = Some d \<and> digits 1 2 d
              \<and> extractPublicationDate text
                  = Some (NewDate (Some (decimal y)) (or_one (Some (decimal mo)) - 1)
                            (or_one (Some (decimal d))))))
    \<or> (\<not> matches_in date_kanji_re text \<and> \<not> matches_in date_numeric_re text
       \<and> \<not> matches_in date_spaced_re text \<and> extractPublicationDate text = None)"
  proof (cases "match text date_kanji_re")
    case (Some m)
    then have "matches_in date_kanji_re text" using date_matches_in(1) [of "text"] by simp
    with Some date_kanji_result [OF Some] show ?thesis by blast
  next
    case n1: None
    then have o1: "\<not> matches_in date_kanji_re text"
      using date_matches_in(1) [of "text"] by simp
    show ?thesis
    proof (cases "match text date_numeric_re")
      case (Some m)
      then have "matches_in date_numeric_re text" using date_matches_in(2) [of "text"] by simp
      with Some o1 date_numeric_result [OF n1 Some] show ?thesis by blast
    next
      case n2: None
      then have o2: "\<not> matches_in date_numeric_re text"
        using date_matches_in(2) [of "text"] by simp
      show ?thesis
      proof (cases "match text date_spaced_re")
        case (Some m)
        then have "matches_in date_spaced_re text" using date_matches_in(3) [of "text"] by simp
        with Some o1 o2 date_spaced_result [OF n1 n2 Some] show ?thesis by blast
      next
        case n3: None
        then have "\<not> matches_in date_spaced_re text"
          using date_matches_in(3) [of "text"] by simp
        with n1 n2 n3 o1 o2 show ?thesis by (simp add: date_res)
      qed
    qed
  qed
next
  show "or_one (parseInt None) = 1" by (simp add: parseInt_undefined or_one_def)
next
  fix g assume "parseInt (Some g) = None"
  then show "or_one (parseInt (Some g)) = 1" by (simp add: or_one_def)
next
  assume "nen \<notin> set before"
  then show "extractPublicationDate (before @ js ''2023'' @ [nen] @ js ''5'' @ [gatsu] @ after)
           = Some (NewDate (Some 2023) 4 1)"
    by (rule kanji_example_in_text)
qed

theorem date_first_pattern_wins_witness:
  "matches_in date_kanji_re (js ''2023-06-07 2023'' @ [nen] @ js ''5'' @ [gatsu])
   \<and> matches_in date_numeric_re (js ''2023-06-07 2023'' @ [nen] @ js ''5'' @ [gatsu])
   \<and> nen \<notin> set (js ''2023-06-07 '')
   \<and> parseInt (Some (js ''x'')) = None
   \<and> extractPublicationDate (js ''2023-06-07 2023'' @ [nen] @ js ''5'' @ [gatsu])
       = Some (NewDate (Some 2023) 4 1)
   \<and> extractPublicationDate (js ''2023'' @ [nen] @ js ''5'' @ [gatsu] @ js '' 2023-06-07'')
       = Some (NewDate (Some 2023) 4 1)"
proof -
  let ?doc = "js ''2023-06-07 2023'' @ [nen] @ js ''5'' @ [gatsu]"
  let ?before = "js ''2023-06-07 ''"
  have m1: "match ?doc date_kanji_re \<noteq> None" by code_simp
  have m2: "match ?doc date_numeric_re \<noteq> None" by code_simp
  have b: "nen \<notin> set ?before" by (simp add: js_def nen_def)
  have x: "parseInt (Some (js ''x'')) = None" by code_simp
  have d: "?doc = ?before @ js ''2023'' @ [nen] @ js ''5'' @ [gatsu] @ []" by (simp add: js_def)
  from date_first_pattern_wins [of ?doc ?before "[]"] b
  have "extractPublicationDate (?before @ js ''2023'' @ [nen] @ js ''5'' @ [gatsu] @ [])
        = Some (NewDate (Some 2023) 4 1)" by blast
  with d have e1: "extractPublicationDate ?doc = Some (NewDate (Some 2023) 4 1)" by simp
  from date_first_pattern_wins [of ?doc "[]" "js '' 2023-06-07''"]
  have e2: "extractPublicationDate (js ''2023'' @ [nen] @ js ''5'' @ [gatsu] @ js '' 2023-06-07'')
        = Some (NewDate (Some 2023) 4 1)" by simp
  from m1 m2 b x e1 e2 show ?thesis by (simp only: date_matches_in simp_thms)
qed

text \<open>
  C5. \<^verbatim>\<open>extractJournal\<close> never throws and the first of the three phrases that occurs
  in the text decides: if \<^verbatim>\<open>published in\<close> occurs (in any case, with white space between
  and after the words, and a character other than a comma behind), the result is the
  trimmed text that stands after such a phrase up to the next comma or the end of the
  text; otherwise \<^verbatim>\<open>journal of\<close> is tried in the same way, then \<^verbatim>\<open>proceedings of\<close>; if
  none occurs the result is \<^verbatim>\<open>null\<close>. The text \<^verbatim>\<open>Journal of Computing, 2020\<close> followed by
  a space or a line feed and \<^verbatim>\<open>Published in XYZ Magazine\<close> gives \<^verbatim>\<open>XYZ Magazine\<close>; and so does
  every text in which \<^verbatim>\<open>Published in XYZ Magazine\<close> ends the text or is followed by a
  comma, with no letter b before it.
\<close>

theorem journal_first_pattern_wins:
  "((occurs published_phrase text
       \<and> (\<exists>g. captured_after published_phrase text g
              \<and> extractJournal text = Inr (Some (trim g))))
    \<or> (\<not> occurs published_phrase text \<and> occurs journal_of_phrase text
       \<and> (\<exists>g. captured_after journal_of_phrase text g
              \<and> extractJournal text = Inr (Some (trim g))))
    \<or> (\<not> occurs published_phrase text \<and> \<not> occurs journal_of_phrase text
       \<and> occurs proceedings_phrase text
       \<and> (\<exists>g. captured_after proceedings_phrase text g
              \<and> extractJournal text = Inr (Some (trim g))))
    \<or> (\<not> occurs published_phrase text \<and> \<not> occurs journal_of_phrase text
       \<and> \<not> occurs proceedings_phrase text \<and> extractJournal text = Inr None))
   \<and> extractJournal (js ''Journal of Computing, 2020 Published in XYZ Magazine'')
       = Inr (Some (js ''XYZ Magazine''))
   \<and> extractJournal (js ''Journal of Computing, 2020
Published in XYZ Magazine'') = Inr (Some (js ''XYZ Magazine''))
   \<and> (list_all (\<lambda>c. c \<noteq> cu CHR ''b'' \<and> c \<noteq> cu CHR ''B'') before
       \<and> (after = [] \<or> hd after = comma)
       \<longrightarrow> extractJournal (before @ js ''Published in XYZ Magazine'' @ after)
           = Inr (Some (js ''XYZ Magazine'')))"
proof (intro conjI impI)
  show "extractJournal (js ''Journal of Computing, 2020 Published in XYZ Magazine'')
       = Inr (Some (js ''XYZ Magazine''))" by (rule journal_examples(1))
next
  show "extractJournal (js ''Journal of Computing, 2020
Published in XYZ Magazine'') = Inr (Some (js ''XYZ Magazine''))" by (rule journal_examples(2))
next
  show "(occurs published_phrase text
       \<and> (\<exists>g. captured_after published_phrase text g
              \<and> extractJournal text = Inr (Some (trim g))))
    \<or> (\<not> occurs published_phrase text \<and> occurs journal_of_phrase text
       \<and> (\<exists>g. captured_after journal_of_phrase text g
              \<and> extractJournal text = Inr (Some (trim g))))
    \<or> (\<not> occurs published_phrase text \<and> \<not> occurs journal_of_phrase text
       \<and> occurs proceedings_phrase text
       \<and> (\<exists>g. captured_after proceedings_phrase text g
              \<and> extractJournal text = Inr (Some (trim g))))
    \<or> (\<not> occurs published_phrase text \<and> \<not> occurs journal_of_phrase text
       \<and> \<not> occurs proceedings_phrase text \<and> extractJournal text = Inr None)"
  proof (cases "match text published_re")
    case (Some m)
    from journal_captured(1) [OF Some] obtain g where "at m 1 = Some g"
      "captured_after published_phrase text g" by blast
    moreover from Some have "occurs published_phrase text"
      using journal_occurs(1) [of "text"] by simp
    ultimately show ?thesis using Some by (auto simp: journal_res)
  next
    case n1: None
    then have o1: "\<not> occurs published_phrase text" using journal_occurs(1) [of "text"] by simp
    show ?thesis
    proof (cases "match text journal_of_re")
      case (Some m)
      from journal_captured(2) [OF Some] obtain g where "at m 1 = Some g"
        "captured_after journal_of_phrase text g" by blast
      moreover from Some have "occurs journal_of_phrase text"
        using journal_occurs(2) [of "text"] by simp
      ultimately show ?thesis using Some n1 o1 by (auto simp: journal_res)
    next
      case n2: None
      then have o2: "\<not> occurs journal_of_phrase text"
        using journal_occurs(2) [of "text"] by simp
      show ?thesis
      proof (cases "match text proceedings_re")
        case (Some m)
        from journal_captured(3) [OF Some] obtain g where "at m 1 = Some g"
          "captured_after proceedings_phrase text g" by blast
        moreover from Some have "occurs proceedings_phrase text"
          using journal_occurs(3) [of "text"] by simp
        ultimately show ?thesis using Some n1 n2 o1 o2 by (auto simp: journal_res)
      next
        case n3: None
        then have "\<not> occurs proceedings_phrase text"
          using journal_occurs(3) [of "text"] by simp
        with n1 n2 n3 o1 o2 show ?thesis by (simp add: journal_res)
      qed
    qed
  qed
next
  assume "list_all (\<lambda>c. c \<noteq> cu CHR ''b'' \<and> c \<noteq> cu CHR ''B'') before
       \<and> (after = [] \<or> hd after = comma)"
  then show "extractJournal (before @ js ''Published in XYZ Magazine'' @ after)
           = Inr (Some (js ''XYZ Magazine''))"
    using published_example_in_text by blast
qed

theorem journal_first_pattern_wins_witness:
  "occurs published_phrase (js ''Journal of Computing, 2020 Published in XYZ Magazine'')
   \<and> occurs journal_of_phrase (js ''Journal of Computing, 2020 Published in XYZ Magazine'')
   \<and> list_all (\<lambda>c. c \<noteq> cu CHR ''b'' \<and> c \<noteq> cu CHR ''B'') (js ''Journal of Computing, 2020 '')
   \<and> extractJournal (js ''Journal of Computing, 2020 Published in XYZ Magazine'')
       = Inr (Some (js ''XYZ Magazine''))"
proof -
  let ?doc = "js ''Journal of Computing, 2020 Published in XYZ Magazine''"
  let ?before = "js ''Journal of Computing, 2020 ''"
  have m1: "match ?doc published_re \<noteq> None" by code_simp
  have m2: "match ?doc journal_of_re \<noteq> None" by code_simp
  have b: "list_all (\<lambda>c. c \<noteq> cu CHR ''b'' \<and> c \<noteq> cu CHR ''B'') ?before"
    by (simp add: js_def cu_def)
  have d: "?doc = ?before @ js ''Published in XYZ Magazine'' @ []" by (simp add: js_def)
  from journal_first_pattern_wins [of ?doc ?before "[]"] b
  have "extractJournal (?before @ js ''Published in XYZ Magazine'' @ []) = Inr (Some (js ''XYZ Magazine''))"
    by blast
  with d have "extractJournal ?doc = Inr (Some (js ''XYZ Magazine''))" by simp
  with m1 m2 b show ?thesis by (simp only: journal_occurs simp_thms)
qed

text \<open>
  C6. \<^verbatim>\<open>extractDOI\<close> never throws, and it returns a DOI exactly when the text contains a
  label (\<^verbatim>\<open>doi\<close> in any case, white space, at most one colon, white space) directly
  followed by a DOI-shaped token. What it returns is then such a token that stands in
  the text right after a label, without the label; when the pattern does not match,
  the result is \<^verbatim>\<open>null\<close>. The text \<^verbatim>\<open>DOI: 10.1000/xyz123\<close> gives \<^verbatim>\<open>10.1000/xyz123\<close>; and so does
  every text in which \<^verbatim>\<open>DOI: 10.1000/xyz123\<close> ends the input or is followed by white space,
  with no letter d before it.
\<close>

theorem extractDOI_bare_token:
  "((match text doi_re = None \<and> extractDOI text = Inr None)
    \<or> (\<exists>pre l d post. text = pre @ l @ d @ post \<and> l \<in> lang True (seqs doi_label)
         \<and> doi_shaped d \<and> extractDOI text = Inr (Some d)))
   \<and> ((\<exists>pre l d post. text = pre @ l @ d @ post \<and> l \<in> lang True (seqs doi_label)
          \<and> doi_shaped d)
       \<longrightarrow> (\<exists>d. extractDOI text = Inr (Some d) \<and> doi_shaped d))
   \<and> extractDOI (js ''DOI: 10.1000/xyz123'') = Inr (Some (js ''10.1000/xyz123''))
   \<and> (list_all (\<lambda>c. c \<noteq> cu CHR ''d'' \<and> c \<noteq> cu CHR ''D'') before
       \<and> (after = [] \<or> is_space (hd after))
       \<longrightarrow> extractDOI (before @ js ''DOI: 10.1000/xyz123'' @ after)
           = Inr (Some (js ''10.1000/xyz123'')))"
proof (intro conjI impI)
  show "extractDOI (js ''DOI: 10.1000/xyz123'') = Inr (Some (js ''10.1000/xyz123''))"
    by (rule doi_example)
next
  show "(match text doi_re = None \<and> extractDOI text = Inr None)
    \<or> (\<exists>pre l d post. text = pre @ l @ d @ post \<and> l \<in> lang True (seqs doi_label)
         \<and> doi_shaped d \<and> extractDOI text = Inr (Some d))"
    by (rule extractDOI_cases)
next
  assume "\<exists>pre l d post. text = pre @ l @ d @ post \<and> l \<in> lang True (seqs doi_label)
          \<and> doi_shaped d"
  then obtain pre l d post where t: "text = pre @ l @ d @ post"
    "l \<in> lang True (seqs doi_label)" "doi_shaped d" by blast
  from t(2) doi_shaped_token [OF t(3)]
  have "l @ d \<in> lang (ignoreCase doi_re) (body doi_re)"
    unfolding doi_re_def by (simp only: regexp.simps lang_seqs_append) blast
  moreover have "plain (body doi_re)"
    by (simp add: doi_re_def doi_label_def doi_token_def re_word_def re_lit_def re_star_def
        re_opt_def re_plus_def)
  ultimately have "match (pre @ (l @ d) @ post) doi_re \<noteq> None" by (rule match_complete [rotated])
  then have "match text doi_re \<noteq> None" using t(1) by simp
  with extractDOI_cases [of "text"] show "\<exists>d. extractDOI text = Inr (Some d) \<and> doi_shaped d"
    by auto
next
  assume "list_all (\<lambda>c. c \<noteq> cu CHR ''d'' \<and> c \<noteq> cu CHR ''D'') before
       \<and> (after = [] \<or> is_space (hd after))"
  then show "extractDOI (before @ js ''DOI: 10.1000/xyz123'' @ after)
           = Inr (Some (js ''10.1000/xyz123''))"
    using doi_example_in_text by blast
qed

theorem extractDOI_bare_token_witness:
  "(\<exists>pre l d post. js ''DOI: 10.1000/xyz123'' = pre @ l @ d @ post
       \<and> l \<in> lang True (seqs doi_label) \<and> doi_shaped d)
   \<and> list_all (\<lambda>c. c \<noteq> cu CHR ''d'' \<and> c \<noteq> cu CHR ''D'') []
   \<and> extractDOI (js ''DOI: 10.1000/xyz123'') = Inr (Some (js ''10.1000/xyz123''))
   \<and> doi_shaped (js ''10.1000/xyz123'')"
proof -
  have s: "doi_shaped (js ''10.1000/xyz123'')"
    unfolding doi_shaped_def
    by (intro exI [of _ "js ''1000''"] exI [of _ "js ''xyz123''"])
       (simp add: js_def is_digit_def is_space_def)
  have l: "js ''DOI: '' \<in> lang True (seqs doi_label)"
    by (rule lang_eval) (simp add: regex_eval doi_label_def)
  have "js ''DOI: 10.1000/xyz123'' = [] @ js ''DOI: '' @ js ''10.1000/xyz123'' @ []"
    by (simp add: js_def)
  with l s have h: "\<exists>pre l d post. js ''DOI: 10.1000/xyz123'' = pre @ l @ d @ post
       \<and> l \<in> lang True (seqs doi_label) \<and> doi_shaped d" by blast
  from extractDOI_bare_token [of "js ''DOI: 10.1000/xyz123''" "[]" "[]"] h s
  show ?thesis by simp
qed

text \<open>
  C7, as stated, fails: the code takes ``entirely uppercase'' as ``made of the letters A
  to Z and white space only'' and ``contains whitespace'' as ``contains the space
  character U+0020''. A line in capitals with an accented capital (E acute, U+00C9) is
  entirely upper case and is returned as the title; a line whose words are separated by
  TAB passes every rule as worded and is not returned.
\<close>

theorem capitals_beyond_ascii_selected:
  "extractTitle (0xC9 # js ''TUDE SUR LES CHOSES'') = Some (0xC9 # js ''TUDE SUR LES CHOSES'')
   \<and> entirely_uppercase (0xC9 # js ''TUDE SUR LES CHOSES'')
   \<and> normalized_lines 10 (js ''Deep'' @ 0x09 # js ''Learning'' @ 0x09 # js ''Methods'')
       = [js ''Deep'' @ 0x09 # js ''Learning'' @ 0x09 # js ''Methods'']
   \<and> title_rule_as_worded (js ''Deep'' @ 0x09 # js ''Learning'' @ 0x09 # js ''Methods'')
   \<and> extractTitle (js ''Deep'' @ 0x09 # js ''Learning'' @ 0x09 # js ''Methods'') = None"
proof -
  let ?etude = "0xC9 # js ''TUDE SUR LES CHOSES''"
  let ?tabbed = "js ''Deep'' @ 0x09 # js ''Learning'' @ 0x09 # js ''Methods''"
  have e: "extractTitle ?etude = Some ?etude" by code_simp
  have u: "entirely_uppercase ?etude" by code_simp
  have l: "normalized_lines 10 ?tabbed = [?tabbed]" by code_simp
  have n: "extractTitle ?tabbed = None" by code_simp
  have "match ?tabbed title_number_re = None" "match ?tabbed title_keyword_re = None"
    by code_simp+
  then have k: "\<not> number_start ?tabbed" "\<not> keyword_start ?tabbed"
    using number_pattern [of ?tabbed] title_keyword_pattern [of ?tabbed] by simp_all
  have "10 < length ?tabbed" "length ?tabbed < 200" "\<not> entirely_uppercase ?tabbed"
    "contains_whitespace ?tabbed" by code_simp+
  with k have w: "title_rule_as_worded ?tabbed" by (simp only: title_rule_as_worded_def simp_thms)
  from e u l w n show ?thesis by (simp only: simp_thms)
qed

text \<open>
  C7, amended. \<^verbatim>\<open>extractTitle\<close> returns the first of the first ten trimmed lines that
  satisfies all the rules for a title (more than 10 and fewer than 200 code units, no
  list marker and no section keyword at the start, not made of the letters A to Z and
  white space only, and a space character U+0020 somewhere). So a line made only of the
  upper-case letters A to Z, or only of those letters and white space, is never the
  title, whatever its length; \<^verbatim>\<open>INTRODUCTION\<close> is never the title.
\<close>

theorem uppercase_line_never_title:
  "extractTitle text = List.find acceptable_title (normalized_lines 10 text)
   \<and> (\<forall>t. extractTitle text = Some t \<longrightarrow> \<not> list_all is_upper t \<and> \<not> ascii_upper_only t)
   \<and> extractTitle text \<noteq> Some (js ''INTRODUCTION'')"
proof -
  have f: "extractTitle text = List.find acceptable_title (normalized_lines 10 text)"
    by (simp add: extractTitle_def title_loop_find normalized_lines_def)
  have r: "\<not> list_all is_upper t \<and> \<not> ascii_upper_only t" if "extractTitle text = Some t" for t
  proof -
    from extractTitle_Some [OF that] have a: "acceptable_title t" by simp
    then have u: "\<not> ascii_upper_only t" by (simp add: acceptable_title_def)
    from a have "t \<noteq> []" by (auto simp: acceptable_title_def)
    with u have "\<not> list_all is_upper t" by (auto simp: ascii_upper_only_def list_all_iff)
    with u show ?thesis by simp
  qed
  have "list_all is_upper (js ''INTRODUCTION'')" by code_simp
  with r [of "js ''INTRODUCTION''"] have "extractTitle text \<noteq> Some (js ''INTRODUCTION'')"
    by blast
  with f r show ?thesis by blast
qed

theorem uppercase_line_never_title_witness:
  "extractTitle (js ''HELLO WORLD AGAIN
A Study of Things in Depth'') = Some (js ''A Study of Things in Depth'')
   \<and> normalized_lines 10 (js ''HELLO WORLD AGAIN
A Study of Things in Depth'') = [js ''HELLO WORLD AGAIN'', js ''A Study of Things in Depth'']
   \<and> ascii_upper_only (js ''HELLO WORLD AGAIN'')
   \<and> 10 < length (js ''HELLO WORLD AGAIN'') \<and> length (js ''HELLO WORLD AGAIN'') < 200
   \<and> \<not> number_start (js ''HELLO WORLD AGAIN'') \<and> \<not> keyword_start (js ''HELLO WORLD AGAIN'')
   \<and> includes_space (js ''HELLO WORLD AGAIN'')
   \<and> \<not> ascii_upper_only (js ''A Study of Things in Depth'')
   \<and> \<not> list_all is_upper (js ''A Study of Things in Depth'')"
proof -
  let ?doc = "js ''HELLO WORLD AGAIN
A Study of Things in Depth''"
  let ?h = "js ''HELLO WORLD AGAIN''"
  have e: "extractTitle ?doc = Some (js ''A Study of Things in Depth'')" by code_simp
  have l: "normalized_lines 10 ?doc = [?h, js ''A Study of Things in Depth'']" by code_simp
  have h: "ascii_upper_only ?h" "10 < length ?h" "length ?h < 200" "includes_space ?h"
    by code_simp+
  have "match ?h title_number_re = None" "match ?h title_keyword_re = None" by code_simp+
  then have k: "\<not> number_start ?h" "\<not> keyword_start ?h"
    using number_pattern [of ?h] title_keyword_pattern [of ?h] by simp_all
  from uppercase_line_never_title [of ?doc] e
  have "\<not> list_all is_upper (js ''A Study of Things in Depth'')
      \<and> \<not> ascii_upper_only (js ''A Study of Things in Depth'')" by blast
  with e l h k show ?thesis by (simp only: simp_thms)
qed

text \<open>
  C8. \<^verbatim>\<open>extractAbstract\<close> never throws. When the pattern does not match it returns
  \<^verbatim>\<open>null\<close>; when it matches, the result is the first 1000 code units of the trimmed
  capture, so its length is at most 1000 and it does not begin with white space; and
  when the trimmed capture has at most 1000 code units the result is the trimmed
  capture itself, which does not end with white space either.
\<close>

theorem extractAbstract_trimmed_capped:
  "(match text abstract_re = None \<and> extractAbstract text = Inr None)
   \<or> (\<exists>m g a. match text abstract_re = Some m \<and> at m 1 = Some g
        \<and> extractAbstract text = Inr (Some a)
        \<and> a = take 1000 (trim g)
        \<and> length a \<le> 1000
        \<and> (a = [] \<or> \<not> is_space (hd a))
        \<and> (length (trim g) \<le> 1000 \<longrightarrow> a = trim g \<and> (a = [] \<or> \<not> is_space (last a))))"
proof (cases "match text abstract_re")
  case None
  then show ?thesis by (simp add: extractAbstract_def)
next
  case (Some m)
  from abstract_group [OF Some] obtain g where g: "at m 1 = Some g" by blast
  let ?a = "take 1000 (trim g)"
  have e: "extractAbstract text = Inr (Some ?a)"
    using Some g by (simp add: extractAbstract_def substring0_def)
  have h: "?a = [] \<or> \<not> is_space (hd ?a)"
  proof (cases "trim g = []")
    case True
    then show ?thesis by simp
  next
    case False
    from trim_no_leading_space [OF False] show ?thesis by (simp add: hd_take)
  qed
  have l: "length (trim g) \<le> 1000 \<longrightarrow> ?a = trim g \<and> (?a = [] \<or> \<not> is_space (last ?a))"
  proof
    assume "length (trim g) \<le> 1000"
    then have "?a = trim g" by simp
    with trim_no_trailing_space [of g] show "?a = trim g \<and> (?a = [] \<or> \<not> is_space (last ?a))"
      by auto
  qed
  from Some g e h l show ?thesis by simp
qed

theorem extractAbstract_trimmed_capped_witness:
  "extractAbstract (js ''Abstract:  We study things.
Keywords: a, b'') = Inr (Some (js ''We study things.''))
   \<and> length (js ''We study things.'') \<le> 1000"
proof -
  let ?doc = "js ''Abstract:  We study things.
Keywords: a, b''"
  have e: "extractAbstract ?doc = Inr (Some (js ''We study things.''))" by code_simp
  from extractAbstract_trimmed_capped [of ?doc] e
  have "length (js ''We study things.'') \<le> 1000" by auto
  with e show ?thesis by simp
qed

text \<open>
  C9. On the empty text every extractor returns without an exception and finds nothing,
  and \<^verbatim>\<open>extractBasicInfo\<close> returns the literal for an unknown title, no authors, and
  \<^verbatim>\<open>null\<close> for the abstract, the DOI, the publication date and the journal.
\<close>

theorem empty_text_degraded:
  "pdf buf = Inr [] \<Longrightarrow>
   extractBasicInfo pdf buf =
     \<lparr>title = unknown_title, authors = [], abstract = Null, doi = Null,
      publicationDate = Null, journal = Null\<rparr>
   \<and> extractTitle [] = None \<and> extractAuthors [] = [] \<and> extractAbstract [] = Inr None
   \<and> extractDOI [] = Inr None \<and> extractPublicationDate [] = None
   \<and> extractJournal [] = Inr None"
  by (simp add: extractBasicInfo_def extractors_empty or_string_def nullable_def)

theorem empty_text_degraded_witness:
  "extractBasicInfo (\<lambda>b. Inr []) [] =
     \<lparr>title = unknown_title, authors = [], abstract = Null, doi = Null,
      publicationDate = Null, journal = Null\<rparr>"
  using empty_text_degraded [of "\<lambda>b. Inr []" "[]"] by simp

text \<open>
  C10, as stated, fails: \<^verbatim>\<open>''.split('\n')\<close> is an array of one empty string, so on the
  empty text the loops go through one (empty) line, not through none.
\<close>

theorem empty_text_one_line:
  "\<not> (split_nl [] = []) \<and> \<not> (normalized_lines 10 [] = []) \<and> \<not> (normalized_lines 20 [] = [])"
  by (simp add: normalized_lines_def slice0_def)

text \<open>
  C10, amended. Splitting a text into lines always gives at least one line: one more
  than the text has line feeds, of which the loops see the first \<open>n\<close>. On the empty text
  that is exactly one line, the empty one, and neither loop accepts it: it fails the
  tests of \<^verbatim>\<open>extractTitle\<close> and of \<^verbatim>\<open>extractAuthors\<close>, it satisfies neither the rules for a
  title nor the rule for a line of authors, and the two functions return \<^verbatim>\<open>null\<close> and the
  empty array.
\<close>

theorem lines_never_empty:
  "split_nl text \<noteq> []
   \<and> length (split_nl text) = Suc (length (filter (\<lambda>c. c = 0x0A) text))
   \<and> length (normalized_lines n text) = min n (Suc (length (filter (\<lambda>c. c = 0x0A) text)))
   \<and> split_nl [] = [[]]
   \<and> normalized_lines 10 [] = [[]] \<and> normalized_lines 20 [] = [[]]
   \<and> \<not> title_line [] \<and> \<not> author_line [] \<and> \<not> acceptable_title [] \<and> \<not> qualifies []
   \<and> extractTitle [] = None \<and> extractAuthors [] = []"
proof -
  have l: "split_nl text \<noteq> []
   \<and> length (split_nl text) = Suc (length (filter (\<lambda>c. c = 0x0A) text))
   \<and> length (normalized_lines n text) = min n (Suc (length (filter (\<lambda>c. c = 0x0A) text)))
   \<and> split_nl [] = [[]]
   \<and> normalized_lines 10 [] = [[]] \<and> normalized_lines 20 [] = [[]]"
    by (simp add: split_nl_not_Nil length_split_nl normalized_lines_def slice0_def trim_def
                  min.commute)
  have t: "\<not> title_line []" by (simp add: title_line_def)
  have a: "\<not> author_line []" by code_simp
  from t a have r: "\<not> acceptable_title []" "\<not> qualifies []"
    by (simp_all only: title_line_rules [symmetric] author_line_rules [symmetric]
                       not_False_eq_True)
  from l t a r extractors_empty(1,2) show ?thesis by (simp only: simp_thms)
qed

end
